theory Spec2Isabelle
  imports Complex_Main
begin

section \<open>Matrix view (include/dca/linalg/matrix_view.hpp)\<close>

text \<open>
  A \<open>MatrixView\<close> is a non-owning window \<open>(ptr_, ldm_, size_)\<close> into storage owned by
  somebody else.  Storage is modelled as a store indexed by integer addresses (one
  address per element), so the data pointer is the address of element \<open>(0, 0)\<close>.

  Indices, sizes and the leading dimension are C++ \<open>int\<close>s, 32 bits wide on the platforms
  the code is built for.  The model keeps them as integers and gives every expression
  that the header evaluates in \<open>int\<close> its two's-complement result \<open>int32\<close>: the
  mathematical value when that fits (\<open>fits_int\<close>), the value wrapped around otherwise.
  Signed overflow is undefined in C++; wrapping is what the compiled code does.  Adding
  an \<open>int\<close> to a pointer is arithmetic on addresses and does not wrap.

  Every \<open>assert\<close> of the header is a branch of the model: a call whose assertion does
  not hold returns \<open>Inl AssertionFailed\<close>, which is what a debug build does (a build with
  \<open>NDEBUG\<close> drops the checks and has undefined behaviour there instead).
\<close>

datatype failure = AssertionFailed

definition fits_int :: "int \<Rightarrow> bool" where
  "fits_int x = (- 2147483648 \<le> x \<and> x \<le> 2147483647)"

definition int32 :: "int \<Rightarrow> int" where
  "int32 x = (x + 2147483648) mod 4294967296 - 2147483648"

record MatrixView =
  mv_ptr :: int
  mv_ldm :: int
  mv_size :: "int \<times> int"

type_synonym 'a store = "int \<Rightarrow> 'a"

definition leadingDimension :: "MatrixView \<Rightarrow> int" where
  "leadingDimension v = mv_ldm v"

definition nrRows :: "MatrixView \<Rightarrow> int" where
  "nrRows v = fst (mv_size v)"

definition nrCols :: "MatrixView \<Rightarrow> int" where
  "nrCols v = snd (mv_size v)"

definition is_square :: "MatrixView \<Rightarrow> bool" where
  "is_square v = (fst (mv_size v) = snd (mv_size v))"

text \<open>
  \<open>ptr(i, j)\<close>: two assertions with inclusive upper bounds, then the address
  \<open>ptr_ + leadingDimension() * j + i\<close>.  The product is an \<open>int\<close>; the two additions move
  the pointer.
\<close>

definition ptr_ij :: "MatrixView \<Rightarrow> int \<Rightarrow> int \<Rightarrow> failure + int" where
  "ptr_ij v i j =
     (if \<not> (0 \<le> i \<and> i \<le> fst (mv_size v)) then Inl AssertionFailed
      else if \<not> (0 \<le> j \<and> j \<le> snd (mv_size v)) then Inl AssertionFailed
      else Inr (mv_ptr v + int32 (leadingDimension v * j) + i))"

text \<open>
  \<open>operator()(i, j)\<close>: two assertions with strict upper bounds, then a reference to
  \<open>ptr_[i + j * ldm_]\<close>.  The subscript is an \<open>int\<close>: the product and the sum are both
  evaluated in \<open>int\<close>.  The reference is the address of the element; \<open>load\<close> and
  \<open>store_at\<close> read and write through it.
\<close>

definition elem :: "MatrixView \<Rightarrow> int \<Rightarrow> int \<Rightarrow> failure + int" where
  "elem v i j =
     (if \<not> (0 \<le> i \<and> i < fst (mv_size v)) then Inl AssertionFailed
      else if \<not> (0 \<le> j \<and> j < snd (mv_size v)) then Inl AssertionFailed
      else Inr (mv_ptr v + int32 (i + int32 (j * mv_ldm v))))"

definition load :: "'a store \<Rightarrow> MatrixView \<Rightarrow> int \<Rightarrow> int \<Rightarrow> failure + 'a" where
  "load mem v i j = (case elem v i j of Inl e \<Rightarrow> Inl e | Inr a \<Rightarrow> Inr (mem a))"

definition store_at :: "'a store \<Rightarrow> MatrixView \<Rightarrow> int \<Rightarrow> int \<Rightarrow> 'a \<Rightarrow> failure + 'a store" where
  "store_at mem v i j x = (case elem v i j of Inl e \<Rightarrow> Inl e | Inr a \<Rightarrow> Inr (mem(a := x)))"

text \<open>The constructors from a raw pointer.\<close>

definition MatrixView_data_size_ld :: "int \<Rightarrow> int \<times> int \<Rightarrow> int \<Rightarrow> MatrixView" where
  "MatrixView_data_size_ld data sz ld = \<lparr>mv_ptr = data, mv_ldm = ld, mv_size = sz\<rparr>"

definition MatrixView_data_n_ld :: "int \<Rightarrow> int \<Rightarrow> int \<Rightarrow> MatrixView" where
  "MatrixView_data_n_ld data n ld = \<lparr>mv_ptr = data, mv_ldm = ld, mv_size = (n, n)\<rparr>"

definition MatrixView_data_n :: "int \<Rightarrow> int \<Rightarrow> MatrixView" where
  "MatrixView_data_n data n = \<lparr>mv_ptr = data, mv_ldm = n, mv_size = (n, n)\<rparr>"

text \<open>
  The constructors from a matrix are templates over the matrix class: they use its
  members \<open>ptr()\<close>, \<open>ptr(i, j)\<close>, \<open>leadingDimension()\<close>, \<open>size()\<close>, \<open>nrRows()\<close> and
  \<open>nrCols()\<close> only.  \<open>MatrixView\<close> has all of them, so the parent is modelled as a
  \<open>MatrixView\<close> (a view of a view); for an owning matrix the record holds its data
  pointer, leading dimension and size.
\<close>

definition MatrixView_mat :: "MatrixView \<Rightarrow> MatrixView" where
  "MatrixView_mat mat =
     \<lparr>mv_ptr = mv_ptr mat, mv_ldm = leadingDimension mat, mv_size = mv_size mat\<rparr>"

text \<open>
  \<open>MatrixView(mat, offset_i, offset_j, ni, nj)\<close>: the member initialisers call
  \<open>mat.ptr(offset_i, offset_j)\<close>, the body asserts that the window ends inside the parent.
  The sums in the assertions are \<open>int\<close> expressions.
\<close>

definition MatrixView_sub :: "MatrixView \<Rightarrow> int \<Rightarrow> int \<Rightarrow> int \<Rightarrow> int \<Rightarrow> failure + MatrixView" where
  "MatrixView_sub mat offset_i offset_j ni nj =
     (case ptr_ij mat offset_i offset_j of
        Inl e \<Rightarrow> Inl e
      | Inr p \<Rightarrow>
          if \<not> (int32 (ni + offset_i) \<le> nrRows mat) then Inl AssertionFailed
          else if \<not> (int32 (nj + offset_j) \<le> nrCols mat) then Inl AssertionFailed
          else Inr \<lparr>mv_ptr = p, mv_ldm = leadingDimension mat, mv_size = (ni, nj)\<rparr>)"

text \<open>
  \<open>MatrixView(mat, offset_i, offset_j)\<close> delegates to the constructor above with the
  rest of the parent as the window (\<open>mat.nrRows() - offset_i\<close> and
  \<open>mat.nrCols() - offset_j\<close>, two \<open>int\<close> expressions), and then runs the two assertions of
  its own body.
\<close>

definition offset_asserts :: "MatrixView \<Rightarrow> int \<Rightarrow> int \<Rightarrow> bool" where
  "offset_asserts mat offset_i offset_j = (offset_i < nrCols mat \<and> offset_j < nrRows mat)"

definition MatrixView_off :: "MatrixView \<Rightarrow> int \<Rightarrow> int \<Rightarrow> failure + MatrixView" where
  "MatrixView_off mat offset_i offset_j =
     (case MatrixView_sub mat offset_i offset_j
             (int32 (nrRows mat - offset_i)) (int32 (nrCols mat - offset_j)) of
        Inl e \<Rightarrow> Inl e
      | Inr v \<Rightarrow> if offset_asserts mat offset_i offset_j then Inr v else Inl AssertionFailed)"

text \<open>The 4 by 5 matrix of the unit test \<open>MatrixViewTest.Constructors\<close>, stored from address 0.\<close>

definition mat45 :: MatrixView where
  "mat45 = MatrixView_data_size_ld 0 (4, 5) 4"

text \<open>
  A view of one row and three columns, \<open>2^30\<close> elements apart, stored from address 0:
  its last column starts \<open>2^31\<close> elements after its first.
\<close>

definition wide_view :: MatrixView where
  "wide_view = MatrixView_data_size_ld 0 (1, 3) 1073741824"

text \<open>
  The subscript \<open>i + j * ldm_\<close> of element access is computed without overflow: the
  product and the sum both fit in an \<open>int\<close>.
\<close>

definition index_fits :: "MatrixView \<Rightarrow> int \<Rightarrow> int \<Rightarrow> bool" where
  "index_fits v i j = (fits_int (j * mv_ldm v) \<and> fits_int (i + j * mv_ldm v))"

section \<open>Threaded Monte Carlo integration (stdthread_qmci_cluster_solver.hpp)\<close>

subsection \<open>Parameters and the work partitioner\<close>

text \<open>
  The members of the parameter and concurrency objects that the solver reads.  The
  counts are C++ \<open>int\<close>s, so they may be zero or negative.
\<close>

record Parameters =
  get_walkers :: int
  get_accumulators :: int
  shared_walk_and_accumulation_thread :: bool
  get_warm_up_sweeps :: int
  get_measurements :: int
  fix_meas_per_walker :: bool
  get_directory_config_read :: string
  get_directory_config_write :: string

record Concurrency =
  conc_id :: int
  conc_first :: int
  number_of_processors :: int

text \<open>
  Modelled from the spec: \<open>parallel::util::getWorkload\<close>, whose header
  \<open>dca/parallel/util/get_workload.hpp\<close> is included by the solver but is not among the
  source files.  The specification gives it as
  \<open>split(total, n, i) = floor(total / n) + (1 if i < total mod n else 0)\<close>, and the
  two-argument form as \<open>split(total, number_of_processors(), id())\<close>.
\<close>

definition getWorkload :: "int \<Rightarrow> int \<Rightarrow> int \<Rightarrow> int" where
  "getWorkload total_work n i = total_work div n + (if i < total_work mod n then 1 else 0)"

definition getWorkload_concurrency :: "int \<Rightarrow> Concurrency \<Rightarrow> int" where
  "getWorkload_concurrency total_work c = getWorkload total_work (number_of_processors c) (conc_id c)"

subsection \<open>The measurement loop of one walker\<close>

text \<open>
  \<open>iterateOverLocalMeasurements(walker_id, f)\<close> calls \<open>f(meas_id, n_local_meas, print)\<close>
  in one of two loops.  The callback is a state transformer on whatever the caller
  threads through it (\<open>'s\<close>).

  With \<open>fix_meas_per_walker\<close> the loop counter is private to the walker.
\<close>

function private_counter_loop ::
  "(int \<Rightarrow> int \<Rightarrow> bool \<Rightarrow> 's \<Rightarrow> 's) \<Rightarrow> int \<Rightarrow> bool \<Rightarrow> int \<Rightarrow> 's \<Rightarrow> 's" where
  "private_counter_loop f n_local_meas print meas_id s =
     (if meas_id < n_local_meas
      then private_counter_loop f n_local_meas print (meas_id + 1) (f meas_id n_local_meas print s)
      else s)"
  by pat_completeness auto
termination
  by (relation "measure (\<lambda>(f, n, print, meas_id, s). nat (n - meas_id))") auto

declare private_counter_loop.simps [simp del]

text \<open>
  Without the flag the counter is the atomic \<open>measurements_done_\<close> shared by all walkers:
  \<open>for (meas_id = measurements_done_; meas_id < n_local_meas; meas_id = ++measurements_done_)\<close>.
  This function is the loop as one walker runs it when no other thread touches the
  counter in between, so that \<open>meas_id\<close> and the counter agree at every test; the
  interleaving of several walkers is the step relation \<open>walker_step\<close> below.
\<close>

function shared_counter_loop ::
  "(int \<Rightarrow> int \<Rightarrow> bool \<Rightarrow> 's \<Rightarrow> 's) \<Rightarrow> int \<Rightarrow> bool \<Rightarrow> int \<times> 's \<Rightarrow> int \<times> 's" where
  "shared_counter_loop f n_local_meas print (measurements_done, s) =
     (if measurements_done < n_local_meas
      then shared_counter_loop f n_local_meas print
             (measurements_done + 1, f measurements_done n_local_meas print s)
      else (measurements_done, s))"
  by pat_completeness auto
termination
  by (relation "measure (\<lambda>(f, n, print, md, s). nat (n - md))") auto

declare shared_counter_loop.simps [simp del]

definition iterateOverLocalMeasurements ::
  "Parameters \<Rightarrow> Concurrency \<Rightarrow> int \<Rightarrow> (int \<Rightarrow> int \<Rightarrow> bool \<Rightarrow> 's \<Rightarrow> 's) \<Rightarrow> int \<times> 's \<Rightarrow> int \<times> 's" where
  "iterateOverLocalMeasurements p c walker_id f st =
     (let fix_thread_meas = fix_meas_per_walker p;
          total_meas = getWorkload_concurrency (get_measurements p) c;
          n_local_meas = (if fix_thread_meas then getWorkload total_meas (get_walkers p) walker_id
                          else total_meas);
          print = (if fix_thread_meas then walker_id = 0 else True)
      in if fix_thread_meas
         then (fst st, private_counter_loop f n_local_meas print 0 (snd st))
         else shared_counter_loop f n_local_meas print st)"

text \<open>A callback that records its own invocations, in order.\<close>

definition record_call :: "int \<Rightarrow> int \<Rightarrow> bool \<Rightarrow> (int \<times> int \<times> bool) list \<Rightarrow> (int \<times> int \<times> bool) list" where
  "record_call meas_id tot_meas print calls = calls @ [(meas_id, tot_meas, print)]"

text \<open>
  The scenario "fixed-per-walker dispatch" of the specification: three walkers, two
  accumulators, ten measurements, one process.
\<close>

definition params_3_2_10 :: Parameters where
  "params_3_2_10 =
     \<lparr>get_walkers = 3, get_accumulators = 2, shared_walk_and_accumulation_thread = False,
      get_warm_up_sweeps = 0, get_measurements = 10, fix_meas_per_walker = True,
      get_directory_config_read = [], get_directory_config_write = []\<rparr>"

definition single_process :: Concurrency where
  "single_process = \<lparr>conc_id = 0, conc_first = 0, number_of_processors = 1\<rparr>"

subsection \<open>Interleaved walkers on the shared counter\<close>

text \<open>
  Several walker threads run the shared-counter loop at once.  The only shared object
  of the loop is the atomic \<open>measurements_done_\<close>; \<open>meas_id\<close> is local to each walker.
  A walker is at one of four places:
  \<^item> \<open>AtLoopInit\<close>: before \<open>meas_id = measurements_done_\<close> (an atomic load);
  \<^item> \<open>InBody meas_id\<close>: the test \<open>meas_id < n_local_meas\<close> held, the callback is to run;
  \<^item> \<open>AtIncrement\<close>: the callback returned, \<open>meas_id = ++measurements_done_\<close> (an atomic
    increment that yields the new value) is next;
  \<^item> \<open>LoopExited\<close>: the test failed.
  The test reads local data only, so it is taken together with the atomic operation
  before it.  In \<open>startWalker\<close> the callback does one sweep, takes an accumulator from
  the idle stack and calls \<open>updateFrom\<close> on it once: every run of the callback hands
  one sample to one accumulator, and the state counts them.
\<close>

datatype walker_pc = AtLoopInit | InBody int | AtIncrement | LoopExited

definition loop_test :: "int \<Rightarrow> int \<Rightarrow> walker_pc" where
  "loop_test n_local_meas meas_id = (if meas_id < n_local_meas then InBody meas_id else LoopExited)"

inductive walker_step :: "int \<Rightarrow> walker_pc list \<times> int \<times> nat \<Rightarrow> walker_pc list \<times> int \<times> nat \<Rightarrow> bool"
  for n_local_meas :: int where
  load_counter:
    "w < length pcs \<Longrightarrow> pcs ! w = AtLoopInit \<Longrightarrow>
     walker_step n_local_meas (pcs, measurements_done, samples)
       (pcs[w := loop_test n_local_meas measurements_done], measurements_done, samples)"
| run_callback:
    "w < length pcs \<Longrightarrow> pcs ! w = InBody meas_id \<Longrightarrow>
     walker_step n_local_meas (pcs, measurements_done, samples)
       (pcs[w := AtIncrement], measurements_done, Suc samples)"
| increment_counter:
    "w < length pcs \<Longrightarrow> pcs ! w = AtIncrement \<Longrightarrow>
     walker_step n_local_meas (pcs, measurements_done, samples)
       (pcs[w := loop_test n_local_meas (measurements_done + 1)], measurements_done + 1, samples)"

code_pred walker_step .

text \<open>
  A run of \<open>W\<close> walkers starts after \<open>initialize\<close> has set the counter to 0 and ends when
  every walker has left the loop.
\<close>

definition walkers_start :: "nat \<Rightarrow> walker_pc list \<times> int \<times> nat" where
  "walkers_start W = (replicate W AtLoopInit, 0, 0)"

definition walkers_finished :: "walker_pc list \<times> int \<times> nat \<Rightarrow> bool" where
  "walkers_finished st = list_all (\<lambda>pc. pc = LoopExited) (fst st)"

text \<open>
  What every reachable state of the walkers satisfies: the samples handed over are the
  increments done plus the walkers between callback and increment; the counter exceeds
  \<open>n_local_meas - 1\<close> by at most the number of walkers that have left the loop; and a
  walker has left only if the counter has reached \<open>n_local_meas\<close>.
\<close>

definition walkers_inv :: "int \<Rightarrow> nat \<Rightarrow> walker_pc list \<times> int \<times> nat \<Rightarrow> bool" where
  "walkers_inv n W = (\<lambda>(pcs, md, k).
     length pcs = W \<and> 0 \<le> md \<and>
     int k = md + int (length (filter (\<lambda>pc. pc = AtIncrement) pcs)) \<and>
     md \<le> n - 1 + int (length (filter (\<lambda>pc. pc = LoopExited) pcs)) \<and>
     (LoopExited \<in> set pcs \<longrightarrow> n \<le> md))"

subsection \<open>Configuration snapshots\<close>

datatype exception = logic_error string | length_error | io_error string

text \<open>
  \<open>std::exception::what()\<close>.  The text of a \<open>length_error\<close> is the library's own and
  is never compared.
\<close>

fun what :: "exception \<Rightarrow> string" where
  "what (logic_error msg) = msg"
| "what length_error = ''vector''"
| "what (io_error msg) = msg"

text \<open>\<open>std::to_string\<close> on an \<open>int\<close>: decimal digits, a minus sign for a negative value.\<close>

fun to_string_nat :: "nat \<Rightarrow> string" where
  "to_string_nat n =
     (if n < 10 then [''0123456789'' ! n]
      else to_string_nat (n div 10) @ [''0123456789'' ! (n mod 10)])"

declare to_string_nat.simps [simp del]

definition to_string :: "int \<Rightarrow> string" where
  "to_string i = (if i < 0 then CHR ''-'' # to_string_nat (nat (- i)) else to_string_nat (nat i))"

text \<open>
  A \<open>dca::io::Buffer\<close> is a sequence of bytes.  An archive is a file of named data sets,
  a file system maps paths to archives.

  Modelled from the spec: \<open>io::HDF5Writer\<close>, whose header \<open>dca/io/hdf5/hdf5_writer.hpp\<close>
  is included by the solver but is not among the source files.  By section 4.4 of the
  specification writing creates the file at the path and stores each buffer under its
  key.  \<open>open_file\<close> creates an empty archive at the path, or throws when the file cannot
  be created; which paths cannot be created is part of the environment
  (\<open>fs_unwritable\<close>).  \<open>execute\<close> stores one buffer under one key.
\<close>

type_synonym Buffer = "char list"

type_synonym archive = "(string \<times> Buffer) list"

record filesystem =
  fs_files :: "string \<Rightarrow> archive option"
  fs_unwritable :: "string set"

definition writer_open_file :: "filesystem \<Rightarrow> string \<Rightarrow> exception + filesystem" where
  "writer_open_file fs file_name =
     (if file_name \<in> fs_unwritable fs then Inl (io_error (''cannot create '' @ file_name))
      else Inr (fs\<lparr>fs_files := (fs_files fs)(file_name \<mapsto> [])\<rparr>))"

definition writer_execute :: "filesystem \<Rightarrow> string \<Rightarrow> string \<Rightarrow> Buffer \<Rightarrow> filesystem" where
  "writer_execute fs file_name key buffer =
     fs\<lparr>fs_files := (fs_files fs)(file_name \<mapsto>
        (case fs_files fs file_name of None \<Rightarrow> [] | Some a \<Rightarrow> a) @ [(key, buffer)])\<rparr>"

text \<open>
  \<open>writeConfigurations\<close> and \<open>readConfigurations\<close>.  Both return the file system, the
  buffers \<open>config_dump_\<close> and what was written to standard error.  The body of
  \<open>readConfigurations\<close> builds its path from \<open>get_directory_config_write()\<close> and runs an
  \<open>HDF5Writer\<close> over the buffers, as the source does.
\<close>

definition process_file :: "string \<Rightarrow> Concurrency \<Rightarrow> string" where
  "process_file directory c = directory @ ''/process_'' @ to_string (conc_id c) @ ''.hdf5''"

definition write_all :: "string \<Rightarrow> Buffer list \<Rightarrow> filesystem \<Rightarrow> filesystem" where
  "write_all out_name config_dump fs =
     fold (\<lambda>i fs'. writer_execute fs' out_name (''configuration_'' @ to_string (int i)) (config_dump ! i))
       [0..<length config_dump] fs"

definition writeConfigurations ::
  "Parameters \<Rightarrow> Concurrency \<Rightarrow> filesystem \<Rightarrow> Buffer list \<Rightarrow> filesystem \<times> Buffer list \<times> string list" where
  "writeConfigurations p c fs config_dump =
     (if get_directory_config_write p = [] then (fs, config_dump, [])
      else let out_name = process_file (get_directory_config_write p) c in
        case writer_open_file fs out_name of
          Inl err \<Rightarrow> (fs, config_dump, [what err @ ''\<newline>Could not write the configuration.\<newline>''])
        | Inr fs' \<Rightarrow> (write_all out_name config_dump fs', config_dump, []))"

definition readConfigurations ::
  "Parameters \<Rightarrow> Concurrency \<Rightarrow> filesystem \<Rightarrow> Buffer list \<Rightarrow> filesystem \<times> Buffer list \<times> string list" where
  "readConfigurations p c fs config_dump =
     (if get_directory_config_read p = [] then (fs, config_dump, [])
      else let out_name = process_file (get_directory_config_write p) c in
        case writer_open_file fs out_name of
          Inl err \<Rightarrow> (fs, map (\<lambda>config. []) config_dump,
                      [what err @ ''\<newline>Could not read the configuration.\<newline>''])
        | Inr fs' \<Rightarrow> (write_all out_name config_dump fs', config_dump, []))"

text \<open>
  A run with a snapshot to read: the archive \<open>in/process_0.hdf5\<close> holds a configuration
  of three bytes for walker 0, and the write directory is \<open>out\<close>.
\<close>

definition params_snapshot :: Parameters where
  "params_snapshot =
     \<lparr>get_walkers = 1, get_accumulators = 1, shared_walk_and_accumulation_thread = False,
      get_warm_up_sweeps = 0, get_measurements = 1, fix_meas_per_walker = False,
      get_directory_config_read = ''in'', get_directory_config_write = ''out''\<rparr>"

definition fs_snapshot :: filesystem where
  "fs_snapshot =
     \<lparr>fs_files = [''in/process_0.hdf5'' \<mapsto> [(''configuration_0'', ''abc'')]],
      fs_unwritable = {}\<rparr>"

subsection \<open>Construction and thread dispatch\<close>

text \<open>
  The constructor.  Its member initialisers build two vectors of \<open>nr_walkers_\<close> and
  \<open>nr_accumulators_\<close> elements; \<open>std::vector\<close> takes the count as an unsigned size, so a
  negative count asks for more than \<open>max_size()\<close> elements and the vector's constructor
  throws (\<open>std::length_error\<close> in current libraries).  The \<open>ThreadTaskHandler\<close> is built next; its header is
  not among the source files, so the outcome of its constructor (the table of thread
  tasks, or an exception) is a parameter.  The body then checks both counts, and reads the
  configurations into the freshly built, empty \<open>config_dump_\<close>.
\<close>

record Solver =
  nr_walkers :: int
  nr_accumulators :: int
  thread_tasks :: "string list"
  config_dump :: "Buffer list"

definition StdThreadQmciClusterSolver ::
  "Parameters \<Rightarrow> Concurrency \<Rightarrow> exception + string list \<Rightarrow> filesystem \<Rightarrow>
   exception + Solver \<times> filesystem \<times> string list" where
  "StdThreadQmciClusterSolver p c task_handler fs =
     (if get_walkers p < 0 \<or> get_accumulators p < 0 then Inl length_error
      else case task_handler of
        Inl e \<Rightarrow> Inl e
      | Inr tasks \<Rightarrow>
          if get_walkers p < 1 \<or> get_accumulators p < 1
          then Inl (logic_error
            ''Both the number of walkers and the number of accumulators must be at least 1.'')
          else case readConfigurations p c fs (replicate (nat (get_walkers p)) []) of
            (fs', dump, err) \<Rightarrow>
              Inr (\<lparr>nr_walkers = get_walkers p, nr_accumulators = get_accumulators p,
                    thread_tasks = tasks, config_dump = dump\<rparr>, fs', err))"

text \<open>
  \<open>integrate()\<close> starts one task per entry of the table, chosen by the entry's text, and
  throws on any other text.  The function is the loop that fills \<open>futures\<close>; \<open>getTask(i)\<close>
  is the \<open>i\<close>-th entry of the table.
\<close>

datatype task = StartWalker nat | StartAccumulator nat | StartWalkerAndAccumulator nat

definition known_task :: "string \<Rightarrow> bool" where
  "known_task x = (x = ''walker'' \<or> x = ''accumulator'' \<or> x = ''walker and accumulator'')"

function enqueue_tasks :: "string list \<Rightarrow> nat \<Rightarrow> task list \<Rightarrow> exception + task list" where
  "enqueue_tasks tasks i futures =
     (if i < length tasks then
        (if tasks ! i = ''walker'' then enqueue_tasks tasks (i + 1) (futures @ [StartWalker i])
         else if tasks ! i = ''accumulator''
           then enqueue_tasks tasks (i + 1) (futures @ [StartAccumulator i])
         else if tasks ! i = ''walker and accumulator''
           then enqueue_tasks tasks (i + 1) (futures @ [StartWalkerAndAccumulator i])
         else Inl (logic_error ''Thread task is undefined.''))
      else Inr futures)"
  by pat_completeness auto
termination
  by (relation "measure (\<lambda>(tasks, i, futures). length tasks - i)") auto

declare enqueue_tasks.simps [simp del]

section \<open>Symmetrization of single-particle functions (symmetrize_single_particle_function.hpp)\<close>

text \<open>
  A \<open>func::function\<close> over a domain is an array of scalars addressed by the indices of the
  domain (the class is declared in \<open>dca/function/function.hpp\<close>, which is not among the
  source files).  It is modelled as a function from indices to scalars: from one index
  for a single domain, from a tuple for a product (\<open>dmn_variadic\<close>).  The sizes of the
  domains are static data in the C++ (\<open>t::dmn_size()\<close>, \<open>b::dmn_size()\<close>, ...) and are
  parameters here.  A pass reads and writes entries inside the domain only; the model
  keeps the values at all other indices as they are.

  Scalars are exact: the elements of a field with a norm (\<open>abs\<close> is \<open>norm\<close>), the complex
  numbers where the pass conjugates.  Rounding is not modelled.  A freshly constructed
  \<open>func::function\<close> holds zeros.
\<close>

definition func_of_list :: "'a::zero list \<Rightarrow> nat \<Rightarrow> 'a" where
  "func_of_list xs i = (if i < length xs then xs ! i else 0)"

definition values_of :: "nat \<Rightarrow> (nat \<Rightarrow> 'a) \<Rightarrow> 'a list" where
  "values_of n f = map f [0..<n]"


subsection \<open>Imaginary time\<close>

text \<open>\<open>execute(function<scalartype, t>& f, do_diff)\<close>: the loop body, then the loop.\<close>

definition t_step :: "nat \<Rightarrow> nat \<Rightarrow> (nat \<Rightarrow> 'a::real_normed_field) \<times> real \<Rightarrow> (nat \<Rightarrow> 'a) \<times> real" where
  "t_step shift i = (\<lambda>(f, mx).
     let mx' = max mx (norm ((f i + f (i + shift)) / 2));
         tmp = (f i - f (i + shift)) / 2
     in (f(i := tmp, i + shift := - tmp), mx'))"

definition execute_t :: "nat \<Rightarrow> (nat \<Rightarrow> 'a::real_normed_field) \<Rightarrow> (nat \<Rightarrow> 'a) \<times> real" where
  "execute_t Nt f = (let shift = Nt div 2 in fold (t_step shift) [0..<Nt div 2] (f, 0))"



definition in_bbd :: "nat \<Rightarrow> nat \<Rightarrow> nat \<times> nat \<times> nat \<Rightarrow> bool" where
  "in_bbd nb nd = (\<lambda>(b0, b1, d). b0 < nb \<and> b1 < nb \<and> d < nd)"


subsection \<open>Matsubara and vertex frequencies\<close>

text \<open>
  \<open>execute(function<scalartype, w>& f, do_diff)\<close>.

  The overloads for \<open>w_VERTEX\<close> and \<open>w_VERTEX_EXTENDED\<close> repeat this loop over their own
  domain and end in a call of \<open>difference\<close> with two arguments.  The class declares
  \<open>difference\<close> with three and with four parameters only, so the two overloads are
  templates that cannot be instantiated: no program runs them, and they have no model
  here.
\<close>

definition w_step :: "nat \<Rightarrow> nat \<Rightarrow> (nat \<Rightarrow> complex) \<times> real \<Rightarrow> (nat \<Rightarrow> complex) \<times> real" where
  "w_step Nw i = (\<lambda>(f, mx).
     let mx' = max mx (norm ((f i - cnj (f (Nw - i - 1))) / 2));
         tmp = (f i + cnj (f (Nw - i - 1))) / 2
     in (f(i := tmp, Nw - 1 - i := cnj tmp), mx'))"

definition execute_w :: "nat \<Rightarrow> (nat \<Rightarrow> complex) \<Rightarrow> (nat \<Rightarrow> complex) \<times> real" where
  "execute_w Nw f = fold (w_step Nw) [0..<Nw div 2] (f, 0)"



subsection \<open>Real frequencies\<close>



subsection \<open>Electron spin\<close>




subsection \<open>Cluster domains\<close>

text \<open>
  The symmetry matrix of a cluster is a table \<open>(r, b, S) \<mapsto> (r', b')\<close> built by
  \<open>domains::cluster_symmetry\<close>, which is not among the source files: the table is a
  parameter of the passes, and \<open>n_sym\<close> is \<open>sym_super_cell_dmn_t::dmn_size()\<close>, the number
  of symmetry operations.

  A pass ends in one of three ways.  It throws (\<open>std::logic_error(__FUNCTION__)\<close>), it
  returns with \<open>f\<close> symmetrized, or, in the one overload that divides without a test,
  it returns after dividing the zero function by \<open>double(0)\<close>: in IEEE arithmetic every
  entry of \<open>f\<close> in the domain is then a NaN, which no exact scalar stands for.
\<close>

datatype 'f outcome = Threw exception | Returned 'f | ReturnedNaN

type_synonym symmetry_matrix = "nat \<Rightarrow> nat \<Rightarrow> nat \<Rightarrow> nat \<times> nat"

definition r_step :: "symmetry_matrix \<Rightarrow> (nat \<Rightarrow> 'a::real_normed_field) \<Rightarrow> nat \<times> nat \<Rightarrow> (nat \<Rightarrow> 'a) \<Rightarrow> (nat \<Rightarrow> 'a)" where
  "r_step r_symmetry_matrix f = (\<lambda>(S_ind, r_ind) f_new.
     let R_new_ind = fst (r_symmetry_matrix r_ind 0 S_ind)
     in f_new(r_ind := f_new r_ind + f R_new_ind))"

definition execute_r :: "symmetry_matrix \<Rightarrow> nat \<Rightarrow> nat \<Rightarrow> (nat \<Rightarrow> 'a::real_normed_field) \<Rightarrow> (nat \<Rightarrow> 'a) outcome" where
  "execute_r r_symmetry_matrix n_r n_sym f =
     (let f_new = fold (r_step r_symmetry_matrix f)
                    [(S_ind, r_ind). S_ind \<leftarrow> [0..<n_sym], r_ind \<leftarrow> [0..<n_r]] (\<lambda>ind. 0)
      in if n_sym > 0
         then Returned (\<lambda>ind. if ind < n_r then f_new ind / of_nat n_sym else f ind)
         else Threw (logic_error ''execute''))"

definition bbr_step ::
  "symmetry_matrix \<Rightarrow> (nat \<times> nat \<times> nat \<Rightarrow> 'a::real_normed_field) \<Rightarrow> nat \<times> nat \<times> nat \<times> nat \<Rightarrow>
   (nat \<times> nat \<times> nat \<Rightarrow> 'a) \<Rightarrow> (nat \<times> nat \<times> nat \<Rightarrow> 'a)" where
  "bbr_step r_symmetry_matrix f = (\<lambda>(S_ind, b0, b1, r_ind) f_new.
     let R_new_ind = fst (r_symmetry_matrix r_ind 0 S_ind);
         b0_new = snd (r_symmetry_matrix 0 b0 S_ind);
         b1_new = snd (r_symmetry_matrix r_ind b1 S_ind)
     in f_new((b0, b1, r_ind) := f_new (b0, b1, r_ind) + f (b0_new, b1_new, R_new_ind)))"

definition execute_bbr ::
  "symmetry_matrix \<Rightarrow> nat \<Rightarrow> nat \<Rightarrow> nat \<Rightarrow> (nat \<times> nat \<times> nat \<Rightarrow> 'a::real_normed_field) \<Rightarrow>
   (nat \<times> nat \<times> nat \<Rightarrow> 'a) outcome" where
  "execute_bbr r_symmetry_matrix nb n_r n_sym f =
     (let f_new = fold (bbr_step r_symmetry_matrix f)
                    [(S_ind, b0, b1, r_ind). S_ind \<leftarrow> [0..<n_sym], b0 \<leftarrow> [0..<nb], b1 \<leftarrow> [0..<nb],
                       r_ind \<leftarrow> [0..<n_r]]
                    (\<lambda>ind. 0)
      in if n_sym > 0
         then Returned (\<lambda>ind. if in_bbd nb n_r ind then f_new ind / of_nat n_sym else f ind)
         else Threw (logic_error ''execute''))"

definition k_step :: "symmetry_matrix \<Rightarrow> (nat \<Rightarrow> 'a::real_normed_field) \<Rightarrow> nat \<times> nat \<Rightarrow> (nat \<Rightarrow> 'a) \<Rightarrow> (nat \<Rightarrow> 'a)" where
  "k_step k_symmetry_matrix f = (\<lambda>(S_ind, k_ind) f_new.
     let K_new_ind = fst (k_symmetry_matrix k_ind 0 S_ind)
     in f_new(k_ind := f_new k_ind + f K_new_ind))"

definition execute_k :: "symmetry_matrix \<Rightarrow> nat \<Rightarrow> nat \<Rightarrow> (nat \<Rightarrow> 'a::real_normed_field) \<Rightarrow> (nat \<Rightarrow> 'a) outcome" where
  "execute_k k_symmetry_matrix n_k n_sym f =
     (let f_new = fold (k_step k_symmetry_matrix f)
                    [(S_ind, k_ind). S_ind \<leftarrow> [0..<n_sym], k_ind \<leftarrow> [0..<n_k]] (\<lambda>ind. 0)
      in if n_sym > 0
         then Returned (\<lambda>ind. if ind < n_k then f_new ind / of_nat n_sym else f ind)
         else Threw (logic_error ''execute''))"

text \<open>
  The band-pair overload for the momentum-space cluster takes the new \<open>k\<close> index from the
  entry of band \<open>b0\<close> (the source marks the line \<open>FIXME: b0 -> b1\<close>), and divides by the
  number of symmetry operations without testing it.
\<close>

definition bbk_step ::
  "symmetry_matrix \<Rightarrow> (nat \<times> nat \<times> nat \<Rightarrow> 'a::real_normed_field) \<Rightarrow> nat \<times> nat \<times> nat \<times> nat \<Rightarrow>
   (nat \<times> nat \<times> nat \<Rightarrow> 'a) \<Rightarrow> (nat \<times> nat \<times> nat \<Rightarrow> 'a)" where
  "bbk_step k_symmetry_matrix f = (\<lambda>(S_ind, b0, b1, k_ind) f_new.
     let K_new_ind = fst (k_symmetry_matrix k_ind b0 S_ind);
         b0_new = snd (k_symmetry_matrix 0 b0 S_ind);
         b1_new = snd (k_symmetry_matrix k_ind b1 S_ind)
     in f_new((b0, b1, k_ind) := f_new (b0, b1, k_ind) + f (b0_new, b1_new, K_new_ind)))"

definition execute_bbk ::
  "symmetry_matrix \<Rightarrow> nat \<Rightarrow> nat \<Rightarrow> nat \<Rightarrow> (nat \<times> nat \<times> nat \<Rightarrow> 'a::real_normed_field) \<Rightarrow>
   (nat \<times> nat \<times> nat \<Rightarrow> 'a) outcome" where
  "execute_bbk k_symmetry_matrix nb n_k n_sym f =
     (let f_new = fold (bbk_step k_symmetry_matrix f)
                    [(S_ind, b0, b1, k_ind). S_ind \<leftarrow> [0..<n_sym], b0 \<leftarrow> [0..<nb], b1 \<leftarrow> [0..<nb],
                       k_ind \<leftarrow> [0..<n_k]]
                    (\<lambda>ind. 0)
      in if n_sym = 0 then ReturnedNaN
         else Returned (\<lambda>ind. if in_bbd nb n_k ind then f_new ind / of_nat n_sym else f ind))"

text \<open>Running a pass on the result of a pass.\<close>

definition and_then :: "'f outcome \<Rightarrow> ('f \<Rightarrow> 'f outcome) \<Rightarrow> 'f outcome" where
  "and_then r pass = (case r of Returned g \<Rightarrow> pass g | Threw e \<Rightarrow> Threw e | ReturnedNaN \<Rightarrow> ReturnedNaN)"

subsection \<open>Notions used to state the properties of the cluster passes\<close>









section \<open>Properties of the matrix view\<close>

lemmas mv_defs = leadingDimension_def nrRows_def nrCols_def ptr_ij_def elem_def
  MatrixView_sub_def MatrixView_off_def offset_asserts_def

text \<open>The wrapped value and the mathematical value.\<close>

lemma int32_fits: "fits_int x \<Longrightarrow> int32 x = x"
  by (simp add: fits_int_def int32_def)

lemma int32_le: "0 \<le> x \<Longrightarrow> int32 x \<le> x"
proof -
  assume "0 \<le> x"
  then have "(x + 2147483648) mod 4294967296 \<le> x + 2147483648"
    by (intro zmod_le_nonneg_dividend) simp
  then show ?thesis by (simp add: int32_def)
qed

lemma int32_idem: "int32 (int32 x) = int32 x"
  by (simp add: int32_def)

lemma int32_0: "int32 0 = 0"
  by (simp add: int32_def)

lemma int32_index: "index_fits v i j \<Longrightarrow> int32 (i + int32 (j * mv_ldm v)) = i + j * mv_ldm v"
  by (simp add: index_fits_def int32_fits)

lemma elem_Inr_iff:
  "(elem v i j = Inr a) =
   (0 \<le> i \<and> i < nrRows v \<and> 0 \<le> j \<and> j < nrCols v \<and>
    a = mv_ptr v + int32 (i + int32 (j * mv_ldm v)))"
  by (auto simp: mv_defs)

lemma ptr_ij_Inr_iff:
  "(ptr_ij v i j = Inr a) =
   (0 \<le> i \<and> i \<le> nrRows v \<and> 0 \<le> j \<and> j \<le> nrCols v \<and>
    a = mv_ptr v + int32 (mv_ldm v * j) + i)"
  by (auto simp: mv_defs)

lemma MatrixView_sub_Inr_iff:
  "(MatrixView_sub mat oi oj ni nj = Inr v) =
   (0 \<le> oi \<and> oi \<le> nrRows mat \<and> 0 \<le> oj \<and> oj \<le> nrCols mat \<and>
    int32 (ni + oi) \<le> nrRows mat \<and> int32 (nj + oj) \<le> nrCols mat \<and>
    v = \<lparr>mv_ptr = mv_ptr mat + int32 (mv_ldm mat * oj) + oi, mv_ldm = mv_ldm mat,
          mv_size = (ni, nj)\<rparr>)"
  by (auto simp: MatrixView_sub_def ptr_ij_Inr_iff leadingDimension_def split: sum.splits)
     (auto simp: mv_defs split: if_splits)

lemma MatrixView_off_Inr_iff:
  "(MatrixView_off mat oi oj = Inr v) =
   (MatrixView_sub mat oi oj (int32 (nrRows mat - oi)) (int32 (nrCols mat - oj)) = Inr v \<and>
    oi < nrCols mat \<and> oj < nrRows mat)"
  by (auto simp: MatrixView_off_def offset_asserts_def split: sum.splits)

text \<open>
  Between a view and its parent.  When the subscript of the parent at \<open>(i + oi, j + oj)\<close>
  is computed without overflow, so are the product \<open>ld * oj\<close> of the constructor and the
  subscript of the view at \<open>(i, j)\<close>, whatever the sign of the leading dimension.
\<close>

lemma fits_between: "fits_int a \<Longrightarrow> fits_int b \<Longrightarrow> a \<le> x \<Longrightarrow> x \<le> b \<Longrightarrow> fits_int x"
  by (simp add: fits_int_def)

lemma fits_0: "fits_int 0"
  by (simp add: fits_int_def)

lemma parent_index_fits:
  assumes i: "0 \<le> i" "i < ni" and j: "0 \<le> j" and o: "0 \<le> oi" "0 \<le> oj"
    and n: "fits_int (ni + oi)" and f: "index_fits mat (i + oi) (j + oj)"
  shows "fits_int (mv_ldm mat * oj)" and "fits_int (j * mv_ldm mat)"
    and "fits_int (i + j * mv_ldm mat)"
proof -
  let ?l = "mv_ldm mat"
  from f have p: "fits_int ((j + oj) * ?l)" and q: "fits_int ((i + oi) + (j + oj) * ?l)"
    by (simp_all add: index_fits_def)
  have s: "(j + oj) * ?l = j * ?l + oj * ?l" by (simp add: algebra_simps)
  from i o n have u: "fits_int i" "fits_int (i + oi)"
    by (simp_all add: fits_int_def)
  have "fits_int (?l * oj) \<and> fits_int (j * ?l) \<and> fits_int (i + j * ?l)"
  proof (cases "0 \<le> ?l")
    case True
    with j o have z: "0 \<le> j * ?l" "0 \<le> oj * ?l" by simp_all
    with s have "oj * ?l \<le> (j + oj) * ?l" "j * ?l \<le> (j + oj) * ?l" by simp_all
    with z have "fits_int (oj * ?l)" "fits_int (j * ?l)"
      by (auto intro: fits_between [OF fits_0 p])
    moreover from z s i o have "0 \<le> i + j * ?l" "i + j * ?l \<le> (i + oi) + (j + oj) * ?l"
      by simp_all
    then have "fits_int (i + j * ?l)" by (rule fits_between [OF fits_0 q])
    ultimately show ?thesis by (simp add: mult.commute)
  next
    case False
    then have neg: "?l \<le> 0" by simp
    with j o have z: "j * ?l \<le> 0" "oj * ?l \<le> 0"
      by (simp_all add: mult_nonneg_nonpos)
    with s have b: "(j + oj) * ?l \<le> oj * ?l" "(j + oj) * ?l \<le> j * ?l" by simp_all
    with z have "fits_int (oj * ?l)" "fits_int (j * ?l)"
      by (auto intro: fits_between [OF p fits_0])
    moreover from b i have "(j + oj) * ?l \<le> i + j * ?l" by simp
    moreover from z have "i + j * ?l \<le> i" by simp
    ultimately have "fits_int (oj * ?l)" "fits_int (j * ?l)" "fits_int (i + j * ?l)"
      by (auto intro: fits_between [OF p u(1)])
    then show ?thesis by (simp add: mult.commute)
  qed
  then show "fits_int (mv_ldm mat * oj)" and "fits_int (j * mv_ldm mat)"
    and "fits_int (i + j * mv_ldm mat)"
    by simp_all
qed

lemma sub_elem:
  assumes s: "MatrixView_sub mat oi oj ni nj = Inr v" and e: "elem v i j = Inr a"
    and n: "fits_int (ni + oi)" "fits_int (nj + oj)"
    and f: "index_fits mat (i + oi) (j + oj)"
  shows "elem mat (i + oi) (j + oj) = Inr a"
proof -
  from n have n': "int32 (ni + oi) = ni + oi" "int32 (nj + oj) = nj + oj"
    by (simp_all add: int32_fits)
  from s have v: "mv_ptr v = mv_ptr mat + int32 (mv_ldm mat * oj) + oi" "mv_ldm v = mv_ldm mat"
    and b: "0 \<le> oi" "0 \<le> oj" "ni + oi \<le> nrRows mat" "nj + oj \<le> nrCols mat"
    and sz: "nrRows v = ni" "nrCols v = nj"
    by (auto simp: MatrixView_sub_Inr_iff nrRows_def nrCols_def n')
  from e have i: "0 \<le> i" "i < ni" "0 \<le> j" "j < nj"
    and a: "a = mv_ptr v + int32 (i + int32 (j * mv_ldm v))"
    by (auto simp: elem_Inr_iff sz)
  note p = parent_index_fits [OF i(1,2,3) b(1,2) n(1) f]
  from p(1) have o: "int32 (mv_ldm mat * oj) = mv_ldm mat * oj"
    by (rule int32_fits)
  from p(2,3) have "int32 (i + int32 (j * mv_ldm mat)) = i + j * mv_ldm mat"
    by (simp add: int32_fits)
  with a have "a = mv_ptr mat + mv_ldm mat * oj + oi + (i + j * mv_ldm mat)"
    by (simp add: v o)
  also have "\<dots> = mv_ptr mat + ((i + oi) + (j + oj) * mv_ldm mat)"
    by (simp add: algebra_simps)
  also have "\<dots> = mv_ptr mat + int32 ((i + oi) + int32 ((j + oj) * mv_ldm mat))"
    by (simp add: int32_index [OF f])
  finally show ?thesis using i b by (simp add: elem_Inr_iff)
qed

lemma off_sub:
  assumes o: "MatrixView_off mat oi oj = Inr v"
    and f: "fits_int (nrRows mat)" "fits_int (nrCols mat)"
  shows "MatrixView_sub mat oi oj (nrRows mat - oi) (nrCols mat - oj) = Inr v"
proof -
  from o have s: "MatrixView_sub mat oi oj (int32 (nrRows mat - oi)) (int32 (nrCols mat - oj)) = Inr v"
    by (simp add: MatrixView_off_Inr_iff)
  then have b: "0 \<le> oi" "oi \<le> nrRows mat" "0 \<le> oj" "oj \<le> nrCols mat"
    by (simp_all add: MatrixView_sub_Inr_iff)
  with f have "fits_int (nrRows mat - oi)" "fits_int (nrCols mat - oj)"
    by (simp_all add: fits_int_def)
  then have "int32 (nrRows mat - oi) = nrRows mat - oi" "int32 (nrCols mat - oj) = nrCols mat - oj"
    by (simp_all add: int32_fits)
  with s show ?thesis by simp
qed

lemma mat45_simps: "nrRows mat45 = 4" "nrCols mat45 = 5" "mv_ptr mat45 = 0" "mv_ldm mat45 = 4"
  "leadingDimension mat45 = 4"
  by (simp_all add: mat45_def MatrixView_data_size_ld_def mv_defs)

text \<open>
  Claim C7, as stated, fails where the \<open>int\<close> arithmetic overflows.
  \<^item> In the view of one row and three columns with leading dimension \<open>2^30\<close>, the pair
    \<open>(0, 2)\<close> is valid, the subscript \<open>0 + 2 * 2^30\<close> wraps to \<open>-2^31\<close>, and the access
    resolves to \<open>base - 2^31\<close>, not to \<open>base + 2^31\<close>.
  \<^item> The view taken from it with offsets \<open>(0, 1)\<close> resolves its \<open>(0, 1)\<close> to
    \<open>base + 2^31\<close>, by pointer arithmetic from the address of \<open>(0, 1)\<close>; the parent resolves
    \<open>(0, 2)\<close> to \<open>base - 2^31\<close>.
  \<^item> On the 4 by 5 matrix, the constructor accepts a window of \<open>2^31 - 1\<close> rows at the
    offsets \<open>(1, 0)\<close>, because \<open>ni + offset_i\<close> wraps in its assertion; \<open>(5, 0)\<close> is then a
    valid pair of the view, and \<open>(6, 0)\<close> fails the assertion of the parent.
\<close>

theorem view_addressing_counterexample:
  "((0::int) \<le> 0 \<and> 0 < nrRows wide_view \<and> (0::int) \<le> 2 \<and> 2 < nrCols wide_view \<and>
    elem wide_view 0 2 = Inr (- 2147483648) \<and>
    mv_ptr wide_view + (0 + 2 * leadingDimension wide_view) = 2147483648) \<and>
   (MatrixView_sub wide_view 0 1 1 2 =
      Inr \<lparr>mv_ptr = 1073741824, mv_ldm = 1073741824, mv_size = (1, 2)\<rparr> \<and>
    elem \<lparr>mv_ptr = 1073741824, mv_ldm = 1073741824, mv_size = (1, 2)\<rparr> 0 1 = Inr 2147483648 \<and>
    elem wide_view (0 + 0) (1 + 1) = Inr (- 2147483648)) \<and>
   (MatrixView_sub mat45 1 0 2147483647 1 =
      Inr \<lparr>mv_ptr = 1, mv_ldm = 4, mv_size = (2147483647, 1)\<rparr> \<and>
    elem \<lparr>mv_ptr = 1, mv_ldm = 4, mv_size = (2147483647, 1)\<rparr> 5 0 = Inr 6 \<and>
    elem mat45 (5 + 1) (0 + 0) = Inl AssertionFailed)"
  by (simp add: wide_view_def mat45_def MatrixView_data_size_ld_def mv_defs int32_def)

text \<open>
  Claim C7, amended.  For a valid index pair \<open>(i, j)\<close> of a view (\<open>0 \<le> i < rows\<close>,
  \<open>0 \<le> j < cols\<close>) whose subscript \<open>i + j * ld\<close> is computed without overflow, element
  access resolves to the address \<open>base + (i + j * ld)\<close>, column-major, and reads the store
  there.  For a view \<open>w\<close> taken from a parent with offsets \<open>(oi, oj)\<close>, by either of the
  two offset constructors, every valid \<open>(i, j)\<close> of \<open>w\<close> is a successful access and
  resolves to the same element as \<open>(i + oi, j + oj)\<close> of the parent, provided that the
  subscript of the parent at \<open>(i + oi, j + oj)\<close> is computed without overflow and that
  the sums \<open>ni + oi\<close> and \<open>nj + oj\<close> of the constructor's assertions fit in an \<open>int\<close>
  (for the two-offset constructor these sums are the parent's numbers of rows and
  columns).
\<close>

theorem view_addressing:
  "(0 \<le> i \<and> i < nrRows v \<and> 0 \<le> j \<and> j < nrCols v \<and> index_fits v i j \<longrightarrow>
      elem v i j = Inr (mv_ptr v + (i + j * leadingDimension v)) \<and>
      load mem v i j = Inr (mem (mv_ptr v + (i + j * leadingDimension v)))) \<and>
   (MatrixView_sub mat oi oj ni nj = Inr w \<and>
      0 \<le> i \<and> i < nrRows w \<and> 0 \<le> j \<and> j < nrCols w \<and>
      fits_int (ni + oi) \<and> fits_int (nj + oj) \<and> index_fits mat (i + oi) (j + oj) \<longrightarrow>
      (\<exists>a. elem w i j = Inr a) \<and>
      elem w i j = elem mat (i + oi) (j + oj) \<and>
      load mem w i j = load mem mat (i + oi) (j + oj)) \<and>
   (MatrixView_off mat oi oj = Inr w' \<and>
      0 \<le> i \<and> i < nrRows w' \<and> 0 \<le> j \<and> j < nrCols w' \<and>
      fits_int (nrRows mat) \<and> fits_int (nrCols mat) \<and> index_fits mat (i + oi) (j + oj) \<longrightarrow>
      (\<exists>a. elem w' i j = Inr a) \<and>
      elem w' i j = elem mat (i + oi) (j + oj) \<and>
      load mem w' i j = load mem mat (i + oi) (j + oj))"
proof (intro conjI impI)
  assume h: "0 \<le> i \<and> i < nrRows v \<and> 0 \<le> j \<and> j < nrCols v \<and> index_fits v i j"
  then have "int32 (i + int32 (j * mv_ldm v)) = i + j * mv_ldm v"
    by (simp add: int32_index)
  with h show e: "elem v i j = Inr (mv_ptr v + (i + j * leadingDimension v))"
    by (simp add: elem_Inr_iff leadingDimension_def)
  then show "load mem v i j = Inr (mem (mv_ptr v + (i + j * leadingDimension v)))"
    by (simp add: load_def)
next
  assume h: "MatrixView_sub mat oi oj ni nj = Inr w \<and>
    0 \<le> i \<and> i < nrRows w \<and> 0 \<le> j \<and> j < nrCols w \<and>
    fits_int (ni + oi) \<and> fits_int (nj + oj) \<and> index_fits mat (i + oi) (j + oj)"
  then obtain a where a: "elem w i j = Inr a"
    by (auto simp: elem_Inr_iff)
  with h have b: "elem mat (i + oi) (j + oj) = Inr a"
    by (auto intro: sub_elem)
  show "\<exists>a. elem w i j = Inr a" using a by blast
  show "elem w i j = elem mat (i + oi) (j + oj)" using a b by simp
  then show "load mem w i j = load mem mat (i + oi) (j + oj)"
    by (simp add: load_def)
next
  assume h: "MatrixView_off mat oi oj = Inr w' \<and>
    0 \<le> i \<and> i < nrRows w' \<and> 0 \<le> j \<and> j < nrCols w' \<and>
    fits_int (nrRows mat) \<and> fits_int (nrCols mat) \<and> index_fits mat (i + oi) (j + oj)"
  then obtain a where a: "elem w' i j = Inr a"
    by (auto simp: elem_Inr_iff)
  from h have "MatrixView_sub mat oi oj (nrRows mat - oi) (nrCols mat - oj) = Inr w'"
    by (auto intro: off_sub)
  with a h have b: "elem mat (i + oi) (j + oj) = Inr a"
    by (auto intro: sub_elem)
  show "\<exists>a. elem w' i j = Inr a" using a by blast
  show "elem w' i j = elem mat (i + oi) (j + oj)" using a b by simp
  then show "load mem w' i j = load mem mat (i + oi) (j + oj)"
    by (simp add: load_def)
qed

lemma sub_ex: "MatrixView_sub mat45 1 2 3 3 = Inr \<lparr>mv_ptr = 9, mv_ldm = 4, mv_size = (3, 3)\<rparr>"
  by (simp add: MatrixView_sub_Inr_iff mat45_simps int32_def)

lemma off_ex: "MatrixView_off mat45 1 2 = Inr \<lparr>mv_ptr = 9, mv_ldm = 4, mv_size = (3, 3)\<rparr>"
  by (simp add: MatrixView_off_Inr_iff MatrixView_sub_Inr_iff mat45_simps int32_def)

lemma sub33_simps:
  "nrRows \<lparr>mv_ptr = 9, mv_ldm = 4, mv_size = (3, 3)\<rparr> = 3"
  "nrCols \<lparr>mv_ptr = 9, mv_ldm = 4, mv_size = (3, 3)\<rparr> = 3"
  by (simp_all add: nrRows_def nrCols_def)

lemma fits_ex:
  "index_fits mat45 1 2" "index_fits mat45 2 4"
  "fits_int (nrRows mat45)" "fits_int (nrCols mat45)"
  by (simp_all add: index_fits_def fits_int_def mat45_simps)

theorem view_addressing_witness:
  "(0 \<le> (1::int) \<and> (1::int) < nrRows mat45 \<and> 0 \<le> (2::int) \<and> (2::int) < nrCols mat45 \<and>
    index_fits mat45 1 2) \<and>
   elem mat45 1 2 = Inr 9 \<and> load (\<lambda>a. 10 * a) mat45 1 2 = Inr (90::int) \<and>
   MatrixView_sub mat45 1 2 3 3 = Inr \<lparr>mv_ptr = 9, mv_ldm = 4, mv_size = (3, 3)\<rparr> \<and>
   fits_int (3 + 1) \<and> fits_int (3 + 2) \<and> index_fits mat45 2 4 \<and>
   elem \<lparr>mv_ptr = 9, mv_ldm = 4, mv_size = (3, 3)\<rparr> 1 2 = elem mat45 2 4 \<and>
   MatrixView_off mat45 1 2 = Inr \<lparr>mv_ptr = 9, mv_ldm = 4, mv_size = (3, 3)\<rparr> \<and>
   fits_int (nrRows mat45) \<and> fits_int (nrCols mat45) \<and>
   load (\<lambda>a. 10 * a) \<lparr>mv_ptr = 9, mv_ldm = 4, mv_size = (3, 3)\<rparr> 1 2 = load (\<lambda>a. 10 * a) mat45 2 4"
  using view_addressing [where v = mat45 and i = 1 and j = 2 and mem = "\<lambda>a. 10 * a"
      and mat = mat45 and oi = 1 and oj = 2 and ni = 3 and nj = 3
      and w = "\<lparr>mv_ptr = 9, mv_ldm = 4, mv_size = (3, 3)\<rparr>"
      and w' = "\<lparr>mv_ptr = 9, mv_ldm = 4, mv_size = (3, 3)\<rparr>"]
  by (simp add: sub_ex off_ex mat45_simps sub33_simps fits_ex fits_int_def)

text \<open>
  Claim C9, as stated, fails: \<open>ptr(i, j)\<close> accepts the one-past-the-end indices
  \<open>i = rows\<close> and \<open>j = cols\<close>, which element access rejects.  On the 4 by 5 matrix
  \<open>ptr(4, 5)\<close> passes both assertions and \<open>(4, 5)\<close> fails the first one of
  \<open>operator()\<close>.
\<close>

theorem ptr_bounds_counterexample:
  "ptr_ij mat45 4 5 = Inr 24 \<and> elem mat45 4 5 = Inl AssertionFailed"
  by (simp add: ptr_ij_def elem_def mat45_def MatrixView_data_size_ld_def leadingDimension_def
      int32_def)

text \<open>
  Claim C9, amended.  The assertions of \<open>ptr(i, j)\<close> accept exactly the pairs with
  \<open>0 \<le> i \<le> rows\<close> and \<open>0 \<le> j \<le> cols\<close> (upper bounds included), those of element access
  exactly the pairs with \<open>0 \<le> i < rows\<close> and \<open>0 \<le> j < cols\<close>.  Every pair accepted by
  element access is accepted by \<open>ptr\<close>; the converse fails, and only for \<open>i = rows\<close> or
  \<open>j = cols\<close>.
\<close>

theorem ptr_bounds:
  "((\<exists>a. ptr_ij v i j = Inr a) = (0 \<le> i \<and> i \<le> nrRows v \<and> 0 \<le> j \<and> j \<le> nrCols v)) \<and>
   ((\<exists>a. elem v i j = Inr a) = (0 \<le> i \<and> i < nrRows v \<and> 0 \<le> j \<and> j < nrCols v)) \<and>
   ((\<exists>a. elem v i j = Inr a) \<longrightarrow> (\<exists>a. ptr_ij v i j = Inr a)) \<and>
   ((\<exists>a. ptr_ij v i j = Inr a) \<and> elem v i j = Inl AssertionFailed \<longrightarrow>
      i = nrRows v \<or> j = nrCols v)"
proof (intro conjI impI)
  show "(\<exists>a. ptr_ij v i j = Inr a) = (0 \<le> i \<and> i \<le> nrRows v \<and> 0 \<le> j \<and> j \<le> nrCols v)"
    by (simp add: ptr_ij_Inr_iff)
  show "(\<exists>a. elem v i j = Inr a) = (0 \<le> i \<and> i < nrRows v \<and> 0 \<le> j \<and> j < nrCols v)"
    by (simp add: elem_Inr_iff)
next
  assume "\<exists>a. elem v i j = Inr a"
  then show "\<exists>a. ptr_ij v i j = Inr a"
    by (simp add: elem_Inr_iff ptr_ij_Inr_iff)
next
  assume h: "(\<exists>a. ptr_ij v i j = Inr a) \<and> elem v i j = Inl AssertionFailed"
  then have "\<not> (\<exists>a. elem v i j = Inr a)" by simp
  with h show "i = nrRows v \<or> j = nrCols v"
    unfolding elem_Inr_iff ptr_ij_Inr_iff by auto
qed

theorem ptr_bounds_witness:
  "elem mat45 1 2 = Inr 9 \<and> (\<exists>a. ptr_ij mat45 1 2 = Inr a) \<and>
   ptr_ij mat45 4 0 = Inr 4 \<and> elem mat45 4 0 = Inl AssertionFailed \<and> 4 = nrRows mat45"
proof -
  have e: "elem mat45 1 2 = Inr 9" and p: "ptr_ij mat45 4 0 = Inr 4"
    and f: "elem mat45 4 0 = Inl AssertionFailed"
    by (simp_all add: ptr_ij_def elem_def mat45_def MatrixView_data_size_ld_def
        leadingDimension_def int32_def)
  from ptr_bounds [of mat45 1 2] e have "\<exists>a. ptr_ij mat45 1 2 = Inr a" by simp
  moreover from ptr_bounds [of mat45 4 0] p f have "4 = nrRows mat45 \<or> 0 = nrCols mat45"
    by simp
  then have "4 = nrRows mat45" by (simp add: mat45_simps)
  ultimately show ?thesis using e p f by simp
qed

text \<open>
  Where element access succeeds, \<open>ptr\<close> gives the same address as long as the \<open>int\<close>
  expressions of both are computed without overflow.  Beyond that the two can differ:
  \<open>ptr\<close> multiplies in \<open>int\<close> and then moves the pointer, element access also adds \<open>i\<close>
  in \<open>int\<close>.
\<close>

lemma ptr_elem_same_address:
  "elem v i j = Inr a \<Longrightarrow> fits_int (leadingDimension v * j) \<Longrightarrow> index_fits v i j \<Longrightarrow>
   ptr_ij v i j = Inr a"
  by (simp add: elem_Inr_iff ptr_ij_Inr_iff int32_index leadingDimension_def
      int32_fits algebra_simps)

lemma ptr_elem_addresses_differ:
  "elem \<lparr>mv_ptr = 0, mv_ldm = 1610612736, mv_size = (536870913, 2)\<rparr> 536870912 1 = Inr (- 2147483648)"
  "ptr_ij \<lparr>mv_ptr = 0, mv_ldm = 1610612736, mv_size = (536870913, 2)\<rparr> 536870912 1 = Inr 2147483648"
  by (simp_all add: elem_def ptr_ij_def leadingDimension_def int32_def)

lemma Inl_failure_iff: "(r = Inl AssertionFailed) = (\<forall>v. r \<noteq> Inr v)"
proof (cases r)
  case (Inl e)
  then show ?thesis by (cases e) simp
next
  case (Inr v)
  then show ?thesis by simp
qed

text \<open>
  Claim C10.  The two assertions in the body of \<open>MatrixView(mat, offset_i, offset_j)\<close>
  compare \<open>offset_i\<close> with the number of columns and \<open>offset_j\<close> with the number of rows.
  For every parent that is not square, some pair with \<open>offset_i < rows\<close> and
  \<open>offset_j < cols\<close> fails them and some pair outside that range passes them.  When the
  parent has at least one row and one column, the pairs can be taken non-negative, the
  first one makes the constructor fail and the second one lets it return a view.
\<close>

theorem offset_asserts_swapped:
  "nrRows mat \<noteq> nrCols mat \<longrightarrow>
     (\<exists>oi oj. oi < nrRows mat \<and> oj < nrCols mat \<and> \<not> offset_asserts mat oi oj) \<and>
     (\<exists>oi oj. \<not> (oi < nrRows mat \<and> oj < nrCols mat) \<and> offset_asserts mat oi oj) \<and>
     (0 < nrRows mat \<and> 0 < nrCols mat \<longrightarrow>
        (\<exists>oi oj. 0 \<le> oi \<and> oi < nrRows mat \<and> 0 \<le> oj \<and> oj < nrCols mat \<and>
           MatrixView_off mat oi oj = Inl AssertionFailed) \<and>
        (\<exists>oi oj w. 0 \<le> oi \<and> 0 \<le> oj \<and> \<not> (oi < nrRows mat \<and> oj < nrCols mat) \<and>
           MatrixView_off mat oi oj = Inr w))"
proof (intro impI conjI)
  assume ns: "nrRows mat \<noteq> nrCols mat"
  show "\<exists>oi oj. oi < nrRows mat \<and> oj < nrCols mat \<and> \<not> offset_asserts mat oi oj"
    using ns
    by (intro exI [of _ "nrRows mat - 1"] exI [of _ "nrCols mat - 1"])
       (auto simp: offset_asserts_def)
  show "\<exists>oi oj. \<not> (oi < nrRows mat \<and> oj < nrCols mat) \<and> offset_asserts mat oi oj"
  proof (cases "nrRows mat < nrCols mat")
    case True
    then show ?thesis
      by (intro exI [of _ "nrRows mat"] exI [of _ "nrRows mat - 1"])
         (auto simp: offset_asserts_def)
  next
    case False
    with ns show ?thesis
      by (intro exI [of _ "nrCols mat - 1"] exI [of _ "nrCols mat"])
         (auto simp: offset_asserts_def)
  qed
next
  assume ns: "nrRows mat \<noteq> nrCols mat" and pos: "0 < nrRows mat \<and> 0 < nrCols mat"
  show "\<exists>oi oj. 0 \<le> oi \<and> oi < nrRows mat \<and> 0 \<le> oj \<and> oj < nrCols mat \<and>
           MatrixView_off mat oi oj = Inl AssertionFailed"
  proof (cases "nrRows mat < nrCols mat")
    case True
    with pos have "MatrixView_off mat 0 (nrCols mat - 1) = Inl AssertionFailed"
      by (simp add: Inl_failure_iff MatrixView_off_Inr_iff)
    with pos show ?thesis
      by (intro exI [of _ 0] exI [of _ "nrCols mat - 1"]) auto
  next
    case False
    with pos ns have "MatrixView_off mat (nrRows mat - 1) 0 = Inl AssertionFailed"
      by (simp add: Inl_failure_iff MatrixView_off_Inr_iff)
    with pos show ?thesis
      by (intro exI [of _ "nrRows mat - 1"] exI [of _ 0]) auto
  qed
  show "\<exists>oi oj w. 0 \<le> oi \<and> 0 \<le> oj \<and> \<not> (oi < nrRows mat \<and> oj < nrCols mat) \<and>
           MatrixView_off mat oi oj = Inr w"
  proof (cases "nrRows mat < nrCols mat")
    case True
    with pos have "\<exists>w. MatrixView_off mat (nrRows mat) 0 = Inr w"
      by (simp add: MatrixView_off_Inr_iff MatrixView_sub_Inr_iff int32_idem int32_le int32_0)
    with pos show ?thesis
      by (intro exI [of _ "nrRows mat"] exI [of _ 0]) auto
  next
    case False
    with pos ns have "\<exists>w. MatrixView_off mat 0 (nrCols mat) = Inr w"
      by (simp add: MatrixView_off_Inr_iff MatrixView_sub_Inr_iff int32_idem int32_le int32_0)
    with pos show ?thesis
      by (intro exI [of _ 0] exI [of _ "nrCols mat"]) auto
  qed
qed

theorem offset_asserts_swapped_witness:
  "nrRows mat45 \<noteq> nrCols mat45 \<and> 0 < nrRows mat45 \<and> 0 < nrCols mat45 \<and>
   (\<exists>oi oj. oi < nrRows mat45 \<and> oj < nrCols mat45 \<and> \<not> offset_asserts mat45 oi oj) \<and>
   (\<exists>oi oj. \<not> (oi < nrRows mat45 \<and> oj < nrCols mat45) \<and> offset_asserts mat45 oi oj) \<and>
   (\<exists>oi oj. 0 \<le> oi \<and> oi < nrRows mat45 \<and> 0 \<le> oj \<and> oj < nrCols mat45 \<and>
      MatrixView_off mat45 oi oj = Inl AssertionFailed) \<and>
   (\<exists>oi oj w. 0 \<le> oi \<and> 0 \<le> oj \<and> \<not> (oi < nrRows mat45 \<and> oj < nrCols mat45) \<and>
      MatrixView_off mat45 oi oj = Inr w)"
proof -
  have h: "nrRows mat45 \<noteq> nrCols mat45" "0 < nrRows mat45" "0 < nrCols mat45"
    by (simp_all add: mat45_simps)
  with offset_asserts_swapped [of mat45] show ?thesis by blast
qed

lemma offset_asserts_examples:
  "MatrixView_off mat45 3 4 = Inl AssertionFailed"
  "MatrixView_off mat45 4 3 = Inr \<lparr>mv_ptr = 16, mv_ldm = 4, mv_size = (0, 2)\<rparr>"
  by (simp_all add: MatrixView_off_def MatrixView_sub_def ptr_ij_def offset_asserts_def
      mat45_simps mat45_def MatrixView_data_size_ld_def leadingDimension_def nrRows_def nrCols_def
      int32_def)

lemma view_round_trip:
  "MatrixView_sub mat45 1 2 3 3 = Inr v \<Longrightarrow> store_at mem v 0 0 (7::int) = Inr mem' \<Longrightarrow>
   load mem' mat45 1 2 = Inr 7"
  by (auto simp: MatrixView_sub_Inr_iff store_at_def load_def elem_def mat45_simps
      mat45_def MatrixView_data_size_ld_def int32_def split: sum.splits if_splits)

section \<open>Properties of the measurement loop\<close>

lemma private_counter_loop_fold:
  "private_counter_loop f n print i s = fold (\<lambda>k. f (i + int k) n print) [0..<nat (n - i)] s"
proof (induction f n print i s rule: private_counter_loop.induct)
  case (1 f n print i s)
  show ?case
  proof (cases "i < n")
    case True
    then have "nat (n - i) = Suc (nat (n - (i + 1)))" by simp
    then have "[0..<nat (n - i)] = 0 # map Suc [0..<nat (n - (i + 1))]"
      by (simp add: upt_conv_Cons map_Suc_upt del: upt_Suc)
    with True "1.IH" show ?thesis
      by (subst private_counter_loop.simps) (simp add: fold_map comp_def add.assoc del: upt_Suc)
  next
    case False
    then show ?thesis by (subst private_counter_loop.simps) simp
  qed
qed

lemma fold_record_call:
  "fold (\<lambda>k. record_call (g k) n print) ks calls = calls @ map (\<lambda>k. (g k, n, print)) ks"
  by (induction ks arbitrary: calls) (simp_all add: record_call_def)

lemma getWorkload_nonneg: "0 \<le> total_work \<Longrightarrow> 0 < n \<Longrightarrow> 0 \<le> getWorkload total_work n i"
  by (simp add: getWorkload_def pos_imp_zdiv_nonneg_iff)

lemma sum_getWorkload:
  assumes "0 < n"
  shows "(\<Sum>i = 0..<n. getWorkload total_work n i) = total_work"
proof -
  have m: "0 \<le> total_work mod n" "total_work mod n < n" using assms by simp_all
  have "(\<Sum>i = 0..<n. getWorkload total_work n i)
      = (\<Sum>i = 0..<n. total_work div n) + (\<Sum>i = 0..<n. if i < total_work mod n then 1 else 0)"
    by (simp add: getWorkload_def sum.distrib)
  also have "(\<Sum>i = 0..<n. total_work div n) = n * (total_work div n)"
    using assms by simp
  also have "(\<Sum>i = 0..<n. if i < total_work mod n then 1 else (0::int))
      = int (card {i \<in> {0..<n}. i < total_work mod n})"
    by (simp add: sum.If_cases Int_def)
  also have "{i \<in> {0..<n}. i < total_work mod n} = {0..<total_work mod n}"
    using m by auto
  also have "int (card {0..<total_work mod n}) = total_work mod n"
    using m by simp
  finally show ?thesis by simp
qed

lemma iterate_fixed:
  assumes "fix_meas_per_walker p"
  shows "iterateOverLocalMeasurements p c w record_call (md, []) =
    (md, map (\<lambda>k. (int k, getWorkload (getWorkload_concurrency (get_measurements p) c) (get_walkers p) w, w = 0))
           [0..<nat (getWorkload (getWorkload_concurrency (get_measurements p) c) (get_walkers p) w)])"
  using assms
  by (simp add: iterateOverLocalMeasurements_def Let_def private_counter_loop_fold fold_record_call)

text \<open>
  Claim C5.  With the fixed-per-walker flag set, \<open>W \<ge> 1\<close> walkers and a local budget
  \<open>M \<ge> 0\<close> (the process's share of the configured measurements), walker \<open>w\<close> of
  \<open>0 \<le> w < W\<close> invokes the callback exactly \<open>M div W + (1 if w < M mod W else 0)\<close> times,
  with \<open>meas_id = 0, 1, ...\<close> in order, and the counts of all walkers add up to \<open>M\<close>.
  With three walkers and ten measurements the counts are 4, 3 and 3.
\<close>

theorem fixed_per_walker_share:
  "(fix_meas_per_walker p \<and> M = getWorkload_concurrency (get_measurements p) c \<and> 0 \<le> M \<and>
    W = get_walkers p \<and> 0 < W \<longrightarrow>
      (0 \<le> w \<and> w < W \<longrightarrow>
         int (length (snd (iterateOverLocalMeasurements p c w record_call (md, [])))) =
           M div W + (if w < M mod W then 1 else 0) \<and>
         map fst (snd (iterateOverLocalMeasurements p c w record_call (md, []))) =
           map int [0..<nat (M div W + (if w < M mod W then 1 else 0))]) \<and>
      (\<Sum>w = 0..<W. int (length (snd (iterateOverLocalMeasurements p c w record_call (md, []))))) = M) \<and>
   map (\<lambda>w. length (snd (iterateOverLocalMeasurements params_3_2_10 single_process w record_call (0, []))))
     [0, 1, 2] = [4, 3, 3]"
proof (intro conjI impI)
  assume h: "fix_meas_per_walker p \<and> M = getWorkload_concurrency (get_measurements p) c \<and> 0 \<le> M \<and>
    W = get_walkers p \<and> 0 < W"
  have n: "0 \<le> getWorkload M W v" for v
    using h by (simp add: getWorkload_nonneg)
  have len: "int (length (snd (iterateOverLocalMeasurements p c v record_call (md, [])))) =
      getWorkload M W v" for v
    using h n [of v] by (simp add: iterate_fixed)
  show "int (length (snd (iterateOverLocalMeasurements p c w record_call (md, [])))) =
      M div W + (if w < M mod W then 1 else 0)"
    using len [of w] by (simp add: getWorkload_def)
  show "map fst (snd (iterateOverLocalMeasurements p c w record_call (md, []))) =
      map int [0..<nat (M div W + (if w < M mod W then 1 else 0))]"
    using h by (simp add: iterate_fixed getWorkload_def comp_def)
  show "(\<Sum>w = 0..<W. int (length (snd (iterateOverLocalMeasurements p c w record_call (md, []))))) = M"
    using h by (simp add: len sum_getWorkload)
next
  have "fix_meas_per_walker params_3_2_10" by (simp add: params_3_2_10_def)
  then show "map (\<lambda>w. length (snd (iterateOverLocalMeasurements params_3_2_10 single_process w
      record_call (0, [])))) [0, 1, 2] = [4, 3, 3]"
    by (simp add: iterate_fixed getWorkload_def getWorkload_concurrency_def
        params_3_2_10_def single_process_def)
qed

theorem fixed_per_walker_share_witness:
  "fix_meas_per_walker params_3_2_10 \<and>
   getWorkload_concurrency (get_measurements params_3_2_10) single_process = 10 \<and>
   get_walkers params_3_2_10 = 3 \<and>
   int (length (snd (iterateOverLocalMeasurements params_3_2_10 single_process 0 record_call (0, [])))) = 4 \<and>
   int (length (snd (iterateOverLocalMeasurements params_3_2_10 single_process 1 record_call (0, [])))) = 3 \<and>
   int (length (snd (iterateOverLocalMeasurements params_3_2_10 single_process 2 record_call (0, [])))) = 3 \<and>
   map fst (snd (iterateOverLocalMeasurements params_3_2_10 single_process 0 record_call (0, []))) =
     [0, 1, 2, 3] \<and>
   (\<Sum>w = 0..<3. int (length (snd (iterateOverLocalMeasurements params_3_2_10 single_process w
      record_call (0, []))))) = 10"
proof -
  have h: "fix_meas_per_walker params_3_2_10"
    "getWorkload_concurrency (get_measurements params_3_2_10) single_process = 10"
    "get_walkers params_3_2_10 = 3"
    by (simp_all add: params_3_2_10_def single_process_def getWorkload_concurrency_def
        getWorkload_def)
  have u: "[0..<4] = [0, 1, 2, 3]" by (simp add: upt_rec)
  from h
    fixed_per_walker_share [of params_3_2_10 10 single_process 3 0 0]
    fixed_per_walker_share [of params_3_2_10 10 single_process 3 1 0]
    fixed_per_walker_share [of params_3_2_10 10 single_process 3 2 0]
  show ?thesis by (simp add: u)
qed

section \<open>Properties of the solver\<close>

lemma to_string_0: "to_string 0 = ''0''"
  by (simp add: to_string_def to_string_nat.simps)

lemma process_file_0: "process_file dir single_process = dir @ ''/process_0.hdf5''"
  by (simp add: process_file_def single_process_def to_string_0)

lemma write_all_other: "file \<noteq> out_name \<Longrightarrow> fs_files (write_all out_name dump fs) file = fs_files fs file"
proof -
  have "file \<noteq> out_name \<Longrightarrow>
      fs_files (fold (\<lambda>i fs'. writer_execute fs' out_name (k i) (dump ! i)) is fs) file = fs_files fs file"
    for "is" k
    by (induction "is" arbitrary: fs) (simp_all add: writer_execute_def)
  then show "file \<noteq> out_name \<Longrightarrow> ?thesis"
    by (simp add: write_all_def)
qed

lemma write_all_unwritable: "fs_unwritable (write_all out_name dump fs) = fs_unwritable fs"
proof -
  have "fs_unwritable (fold (\<lambda>i fs'. writer_execute fs' out_name (k i) (dump ! i)) is fs) = fs_unwritable fs"
    for "is" k
    by (induction "is" arbitrary: fs) (simp_all add: writer_execute_def)
  then show ?thesis
    by (simp add: write_all_def)
qed

text \<open>
  What \<open>readConfigurations\<close> does to the buffers, whatever the archives hold: it leaves
  them as they are or empties them all.  It never changes a file other than the one in
  the write directory.
\<close>

lemma readConfigurations_buffers:
  "fst (snd (readConfigurations p c fs dump)) = dump \<or>
   fst (snd (readConfigurations p c fs dump)) = map (\<lambda>config. []) dump"
  by (simp add: readConfigurations_def Let_def split: sum.splits)

lemma readConfigurations_files:
  "file \<noteq> process_file (get_directory_config_write p) c \<Longrightarrow>
   fs_files (fst (readConfigurations p c fs dump)) file = fs_files fs file"
  by (auto simp: readConfigurations_def Let_def writer_open_file_def write_all_other
      split: sum.splits if_splits)

text \<open>
  Claim C6 at a concrete input.  The read directory \<open>in\<close> holds an archive with the bytes
  \<open>abc\<close> under \<open>configuration_0\<close>, the write directory is \<open>out\<close>, and the one slot is empty
  as the constructor leaves it.  \<open>readConfigurations\<close> does not fail and logs nothing,
  the slot is still empty afterwards (not \<open>abc\<close>), the archive in \<open>in\<close> was not opened,
  and \<open>out/process_0.hdf5\<close> has been created and holds the empty buffer under
  \<open>configuration_0\<close>.
\<close>

theorem readConfigurations_writes:
  "(case readConfigurations params_snapshot single_process fs_snapshot [[]] of
      (fs, dump, err) \<Rightarrow>
        dump = [[]] \<and> err = [] \<and>
        fs_files fs ''in/process_0.hdf5'' = Some [(''configuration_0'', ''abc'')] \<and>
        fs_files fs ''out/process_0.hdf5'' = Some [(''configuration_0'', [])]) \<and>
   fs_files fs_snapshot ''out/process_0.hdf5'' = None"
  by (simp add: readConfigurations_def params_snapshot_def fs_snapshot_def process_file_0
      writer_open_file_def write_all_def writer_execute_def to_string_0)

text \<open>
  The failure branch is as the claim says: when the archive cannot be opened, every slot
  is emptied and one message goes to standard error.
\<close>

lemma readConfigurations_failure:
  assumes "get_directory_config_read p \<noteq> []"
    and "process_file (get_directory_config_write p) c \<in> fs_unwritable fs"
  shows "\<exists>msg. readConfigurations p c fs dump = (fs, replicate (length dump) [], [msg])"
  using assms
  by (simp add: readConfigurations_def writer_open_file_def map_replicate_const)

text \<open>Construction with a count below 1 throws, whatever the task handler does.\<close>

lemma constructor_rejects:
  "get_walkers p < 1 \<or> get_accumulators p < 1 \<Longrightarrow>
   \<exists>e. StdThreadQmciClusterSolver p c task_handler fs = Inl e"
  by (auto simp: StdThreadQmciClusterSolver_def split: sum.splits)

lemma constructor_rejects_zero:
  "0 \<le> get_walkers p \<Longrightarrow> 0 \<le> get_accumulators p \<Longrightarrow>
   get_walkers p < 1 \<or> get_accumulators p < 1 \<Longrightarrow>
   StdThreadQmciClusterSolver p c (Inr tasks) fs = Inl (logic_error
     ''Both the number of walkers and the number of accumulators must be at least 1.'')"
  by (auto simp: StdThreadQmciClusterSolver_def)

lemma constructor_accepts:
  "1 \<le> get_walkers p \<Longrightarrow> 1 \<le> get_accumulators p \<Longrightarrow>
   \<exists>s. StdThreadQmciClusterSolver p c (Inr tasks) fs = Inr s"
  by (auto simp: StdThreadQmciClusterSolver_def split: prod.splits)

text \<open>
  \<open>integrate()\<close> throws exactly when the table holds a text other than the three task
  names.
\<close>

lemma enqueue_tasks_outcome:
  "enqueue_tasks tasks i futures =
     (if list_all known_task (drop i tasks)
      then Inr (futures @ map (\<lambda>k.
             if tasks ! k = ''walker'' then StartWalker k
             else if tasks ! k = ''accumulator'' then StartAccumulator k
             else StartWalkerAndAccumulator k) [i..<length tasks])
      else Inl (logic_error ''Thread task is undefined.''))"
proof (induction tasks i futures rule: enqueue_tasks.induct)
  case (1 tasks i futures)
  show ?case
  proof (cases "i < length tasks")
    case False
    then show ?thesis by (subst enqueue_tasks.simps) simp
  next
    case True
    then have d: "drop i tasks = tasks ! i # drop (i + 1) tasks"
      by (simp add: Cons_nth_drop_Suc)
    have u: "[i..<length tasks] = i # [i + 1..<length tasks]"
      using True by (simp add: upt_conv_Cons)
    have k: "known_task (tasks ! i) =
        (tasks ! i = ''walker'' \<or> tasks ! i = ''accumulator'' \<or> tasks ! i = ''walker and accumulator'')"
      by (simp add: known_task_def)
    show ?thesis
      using True "1.IH"
      by (subst enqueue_tasks.simps) (auto simp: d u k simp del: upt_Suc)
  qed
qed

lemma integrate_rejects:
  "(enqueue_tasks tasks 0 [] = Inl (logic_error ''Thread task is undefined.'')) =
   (\<exists>i < length tasks. \<not> known_task (tasks ! i))"
  by (simp add: enqueue_tasks_outcome list_all_length)

text \<open>
  Claim C1 at a concrete input: two walkers, one measurement for the process, the shared
  counter.  Both walkers load the counter while it is 0, both run the callback, and
  both leave the loop after their increment: the run ends with two samples handed to
  accumulators, one more than the budget of the process.
\<close>

theorem shared_counter_overshoot:
  "(walker_step 1)\<^sup>*\<^sup>* (walkers_start 2) ([LoopExited, LoopExited], 2, 2) \<and>
   walkers_finished ([LoopExited, LoopExited], 2, 2)"
proof -
  have s1: "walker_step 1 ([AtLoopInit, AtLoopInit], 0, 0) ([InBody 0, AtLoopInit], 0, 0)"
    using load_counter [of 0 "[AtLoopInit, AtLoopInit]" 1 0 0] by (simp add: loop_test_def)
  have s2: "walker_step 1 ([InBody 0, AtLoopInit], 0, 0) ([InBody 0, InBody 0], 0, 0)"
    using load_counter [of 1 "[InBody 0, AtLoopInit]" 1 0 0] by (simp add: loop_test_def)
  have s3: "walker_step 1 ([InBody 0, InBody 0], 0, 0) ([AtIncrement, InBody 0], 0, 1)"
    using run_callback [of 0 "[InBody 0, InBody 0]" 0 1 0 0] by simp
  have s4: "walker_step 1 ([AtIncrement, InBody 0], 0, 1) ([AtIncrement, AtIncrement], 0, 2)"
    using run_callback [of 1 "[AtIncrement, InBody 0]" 0 1 0 1] by (simp add: numeral_2_eq_2)
  have s5: "walker_step 1 ([AtIncrement, AtIncrement], 0, 2) ([LoopExited, AtIncrement], 1, 2)"
    using increment_counter [of 0 "[AtIncrement, AtIncrement]" 1 0 2] by (simp add: loop_test_def)
  have s6: "walker_step 1 ([LoopExited, AtIncrement], 1, 2) ([LoopExited, LoopExited], 2, 2)"
    using increment_counter [of 1 "[LoopExited, AtIncrement]" 1 1 2] by (simp add: loop_test_def)
  note step = converse_rtranclp_into_rtranclp [where r = "walker_step 1"]
  have "(walker_step 1)\<^sup>*\<^sup>* ([AtLoopInit, AtLoopInit], 0, 0) ([LoopExited, LoopExited], 2, 2)"
    by (rule step [OF s1], rule step [OF s2], rule step [OF s3], rule step [OF s4],
        rule step [OF s5], rule step [OF s6], rule rtranclp.rtrancl_refl)
  then show ?thesis
    by (simp add: walkers_start_def walkers_finished_def numeral_2_eq_2)
qed

subsection \<open>Every run on the shared counter\<close>

lemma count_list_update:
  "i < length xs \<Longrightarrow>
   length (filter P (xs[i := y])) + (if P (xs ! i) then 1 else 0) =
   length (filter P xs) + (if P y then 1 else 0)"
proof (induction xs arbitrary: i)
  case Nil
  then show ?case by simp
next
  case (Cons x xs)
  then show ?case by (cases i) auto
qed

lemma walkers_inv_start: "1 \<le> n \<Longrightarrow> walkers_inv n W (walkers_start W)"
  by (simp add: walkers_inv_def walkers_start_def)

lemma walkers_inv_step:
  assumes "walker_step n st st'" "walkers_inv n W st"
  shows "walkers_inv n W st'"
  using assms
proof (cases rule: walker_step.cases)
  case (load_counter w pcs md k)
  let ?new = "loop_test n md"
  from load_counter assms(2) have inv: "length pcs = W" "0 \<le> md"
    "int k = md + int (length (filter (\<lambda>pc. pc = AtIncrement) pcs))"
    "md \<le> n - 1 + int (length (filter (\<lambda>pc. pc = LoopExited) pcs))"
    "LoopExited \<in> set pcs \<longrightarrow> n \<le> md"
    by (simp_all add: walkers_inv_def)
  have a: "length (filter (\<lambda>pc. pc = AtIncrement) (pcs[w := ?new])) =
      length (filter (\<lambda>pc. pc = AtIncrement) pcs)"
    using count_list_update [of w pcs "\<lambda>pc. pc = AtIncrement" ?new] load_counter(3,4)
    by (simp add: loop_test_def)
  have e: "length (filter (\<lambda>pc. pc = LoopExited) (pcs[w := ?new])) =
      length (filter (\<lambda>pc. pc = LoopExited) pcs) + (if md < n then 0 else 1)"
    using count_list_update [of w pcs "\<lambda>pc. pc = LoopExited" ?new] load_counter(3,4)
    by (simp add: loop_test_def)
  have s: "LoopExited \<in> set (pcs[w := ?new]) \<longrightarrow> n \<le> md"
    using inv(5) load_counter(3) by (auto simp: loop_test_def dest!: set_update_subset_insert [THEN subsetD])
  show ?thesis
    unfolding load_counter(2) walkers_inv_def using inv a e s by simp
next
  case (run_callback w pcs meas_id md k)
  from run_callback assms(2) have inv: "length pcs = W" "0 \<le> md"
    "int k = md + int (length (filter (\<lambda>pc. pc = AtIncrement) pcs))"
    "md \<le> n - 1 + int (length (filter (\<lambda>pc. pc = LoopExited) pcs))"
    "LoopExited \<in> set pcs \<longrightarrow> n \<le> md"
    by (simp_all add: walkers_inv_def)
  have a: "length (filter (\<lambda>pc. pc = AtIncrement) (pcs[w := AtIncrement])) =
      length (filter (\<lambda>pc. pc = AtIncrement) pcs) + 1"
    using count_list_update [of w pcs "\<lambda>pc. pc = AtIncrement" AtIncrement] run_callback(3,4)
    by simp
  have e: "length (filter (\<lambda>pc. pc = LoopExited) (pcs[w := AtIncrement])) =
      length (filter (\<lambda>pc. pc = LoopExited) pcs)"
    using count_list_update [of w pcs "\<lambda>pc. pc = LoopExited" AtIncrement] run_callback(3,4)
    by simp
  have s: "LoopExited \<in> set (pcs[w := AtIncrement]) \<longrightarrow> n \<le> md"
    using inv(5) by (auto dest!: set_update_subset_insert [THEN subsetD])
  show ?thesis
    unfolding run_callback(2) walkers_inv_def using inv a e s by simp
next
  case (increment_counter w pcs md k)
  let ?new = "loop_test n (md + 1)"
  from increment_counter assms(2) have inv: "length pcs = W" "0 \<le> md"
    "int k = md + int (length (filter (\<lambda>pc. pc = AtIncrement) pcs))"
    "md \<le> n - 1 + int (length (filter (\<lambda>pc. pc = LoopExited) pcs))"
    "LoopExited \<in> set pcs \<longrightarrow> n \<le> md"
    by (simp_all add: walkers_inv_def)
  have a: "length (filter (\<lambda>pc. pc = AtIncrement) (pcs[w := ?new])) + 1 =
      length (filter (\<lambda>pc. pc = AtIncrement) pcs)"
    using count_list_update [of w pcs "\<lambda>pc. pc = AtIncrement" ?new] increment_counter(3,4)
    by (simp add: loop_test_def)
  have e: "length (filter (\<lambda>pc. pc = LoopExited) (pcs[w := ?new])) =
      length (filter (\<lambda>pc. pc = LoopExited) pcs) + (if md + 1 < n then 0 else 1)"
    using count_list_update [of w pcs "\<lambda>pc. pc = LoopExited" ?new] increment_counter(3,4)
    by (simp add: loop_test_def)
  have s: "LoopExited \<in> set (pcs[w := ?new]) \<longrightarrow> n \<le> md + 1"
    using inv(5) by (auto simp: loop_test_def dest!: set_update_subset_insert [THEN subsetD])
  show ?thesis
    unfolding increment_counter(2) walkers_inv_def using inv a e s by auto
qed

lemma walkers_inv_run:
  assumes "(walker_step n)\<^sup>*\<^sup>* (walkers_start W) st" "1 \<le> n"
  shows "walkers_inv n W st"
  using assms(1)
proof (induction rule: rtranclp_induct)
  case base
  show ?case by (rule walkers_inv_start [OF assms(2)])
next
  case (step y z)
  then show ?case by (blast intro: walkers_inv_step)
qed

text \<open>
  In every finished run of \<open>W \<ge> 1\<close> walkers on the shared counter with a budget
  \<open>n_local_meas \<ge> 1\<close>, the number of samples handed to accumulators is the final value
  of the counter, at least \<open>n_local_meas\<close> and at most \<open>n_local_meas + W - 1\<close>.
\<close>

lemma shared_counter_bounds:
  assumes "(walker_step n)\<^sup>*\<^sup>* (walkers_start W) (pcs, md, samples)"
    and "walkers_finished (pcs, md, samples)" and "1 \<le> n" and "0 < W"
  shows "int samples = md \<and> n \<le> int samples \<and> int samples \<le> n + int W - 1"
proof -
  from walkers_inv_run [OF assms(1,3)] have inv: "length pcs = W"
    "int samples = md + int (length (filter (\<lambda>pc. pc = AtIncrement) pcs))"
    "md \<le> n - 1 + int (length (filter (\<lambda>pc. pc = LoopExited) pcs))"
    "LoopExited \<in> set pcs \<longrightarrow> n \<le> md"
    by (simp_all add: walkers_inv_def)
  from assms(2) have all: "\<forall>pc \<in> set pcs. pc = LoopExited"
    by (simp add: walkers_finished_def list_all_iff)
  then have "filter (\<lambda>pc. pc = AtIncrement) pcs = []"
    by (auto simp: filter_empty_conv)
  moreover from all have "filter (\<lambda>pc. pc = LoopExited) pcs = pcs"
    by (simp add: filter_id_conv)
  moreover from inv(1) assms(4) all have "LoopExited \<in> set pcs"
    by (cases pcs) auto
  ultimately show ?thesis using inv by simp
qed

text \<open>
  A single walker that runs the shared-counter loop alone, from the counter at 0, invokes
  the callback exactly \<open>n_local_meas\<close> times.
\<close>

lemma shared_counter_loop_fold:
  "shared_counter_loop f n print (md, s) =
   (max md n, fold (\<lambda>k. f (md + int k) n print) [0..<nat (n - md)] s)"
proof (induction f n print "(md, s)" arbitrary: md s rule: shared_counter_loop.induct)
  case (1 f n print md s)
  show ?case
  proof (cases "md < n")
    case True
    then have "nat (n - md) = Suc (nat (n - (md + 1)))" by simp
    then have "[0..<nat (n - md)] = 0 # map Suc [0..<nat (n - (md + 1))]"
      by (simp add: upt_conv_Cons map_Suc_upt del: upt_Suc)
    with True "1.hyps" [OF True] show ?thesis
      by (subst shared_counter_loop.simps) (simp add: fold_map comp_def add.assoc del: upt_Suc)
  next
    case False
    then show ?thesis by (subst shared_counter_loop.simps) simp
  qed
qed

lemma iterate_shared_alone:
  assumes "\<not> fix_meas_per_walker p" "0 \<le> getWorkload_concurrency (get_measurements p) c"
  shows "iterateOverLocalMeasurements p c w record_call (0, []) =
    (getWorkload_concurrency (get_measurements p) c,
     map (\<lambda>k. (int k, getWorkload_concurrency (get_measurements p) c, True))
       [0..<nat (getWorkload_concurrency (get_measurements p) c)])"
  using assms
  by (simp add: iterateOverLocalMeasurements_def Let_def shared_counter_loop_fold fold_record_call)

section \<open>Properties of the symmetrization passes\<close>

subsection \<open>Loops that update a function\<close>

text \<open>
  Three shapes of loop occur in the passes.  In the first, every iteration \<open>x\<close> rewrites
  the entries \<open>K x\<close> of the function in place, from those entries alone, and distinct
  iterations own disjoint entries.
\<close>

lemma fold_local_other:
  assumes "\<And>x g. x \<in> set xs \<Longrightarrow> k \<notin> K x \<Longrightarrow> step x g k = g k"
    and "\<And>x. x \<in> set xs \<Longrightarrow> k \<notin> K x"
  shows "fold step xs g k = g k"
  using assms by (induction xs arbitrary: g) simp_all

lemma fold_local_at:
  fixes step :: "'x \<Rightarrow> ('k \<Rightarrow> 'v) \<Rightarrow> 'k \<Rightarrow> 'v"
  assumes frame: "\<And>x g k. x \<in> set xs \<Longrightarrow> k \<notin> K x \<Longrightarrow> step x g k = g k"
    and loc: "\<And>x g g' k. x \<in> set xs \<Longrightarrow> \<forall>k' \<in> K x. g k' = g' k' \<Longrightarrow> k \<in> K x \<Longrightarrow>
                step x g k = step x g' k"
    and disj: "\<And>x y. x \<in> set xs \<Longrightarrow> y \<in> set xs \<Longrightarrow> x \<noteq> y \<Longrightarrow> K x \<inter> K y = {}"
    and "distinct xs" "x \<in> set xs" "k \<in> K x"
  shows "fold step xs g k = step x g k"
  using assms
proof (induction xs arbitrary: g)
  case Nil
  then show ?case by simp
next
  case (Cons y ys)
  note frame = Cons.prems(1) and loc = Cons.prems(2) and disj = Cons.prems(3)
  have dist: "y \<notin> set ys" "distinct ys" using Cons.prems(4) by simp_all
  show ?case
  proof (cases "x = y")
    case True
    have "fold step ys (step y g) k = step y g k"
    proof (rule fold_local_other [where K = K])
      fix z h assume "z \<in> set ys" "k \<notin> K z"
      then show "step z h k = h k" by (intro frame) simp_all
    next
      fix z assume z: "z \<in> set ys"
      with dist have "z \<noteq> y" by blast
      with z have "K z \<inter> K y = {}" by (intro disj) simp_all
      with Cons.prems(6) True show "k \<notin> K z" by blast
    qed
    with True show ?thesis by simp
  next
    case False
    with Cons.prems(5) have x: "x \<in> set ys" by simp
    have "fold step ys (step y g) k = step x (step y g) k"
    proof (rule Cons.IH)
      fix z h k' assume "z \<in> set ys" "k' \<notin> K z"
      then show "step z h k' = h k'" by (intro frame) simp_all
    next
      fix z k' and h h' :: "'k \<Rightarrow> 'v"
      assume "z \<in> set ys" "\<forall>k'' \<in> K z. h k'' = h' k''" "k' \<in> K z"
      then show "step z h k' = step z h' k'" by (intro loc) simp_all
    next
      fix z z' assume "z \<in> set ys" "z' \<in> set ys" "z \<noteq> z'"
      then show "K z \<inter> K z' = {}" by (intro disj) simp_all
    next
      show "distinct ys" by (rule dist)
      show "x \<in> set ys" by (rule x)
      show "k \<in> K x" by (rule Cons.prems(6))
    qed
    also have "step x (step y g) k = step x g k"
    proof (rule loc)
      show "x \<in> set (y # ys)" using x by simp
      show "k \<in> K x" by (rule Cons.prems(6))
      have "K x \<inter> K y = {}" using x False by (intro disj) simp_all
      then have "\<And>k'. k' \<in> K x \<Longrightarrow> k' \<notin> K y" by blast
      then have "\<And>k'. k' \<in> K x \<Longrightarrow> step y g k' = g k'" by (intro frame) simp_all
      then show "\<forall>k' \<in> K x. step y g k' = g k'" by blast
    qed
    finally show ?thesis by simp
  qed
qed






subsection \<open>Imaginary time\<close>

lemma fst_t_step:
  "fst (t_step shift i p) =
   (fst p)(i := (fst p i - fst p (i + shift)) / 2, i + shift := - ((fst p i - fst p (i + shift)) / 2))"
  by (simp add: t_step_def Let_def split_beta)

lemma snd_t_step:
  "snd (t_step shift i p) = max (snd p) (norm ((fst p i + fst p (i + shift)) / 2))"
  by (simp add: t_step_def Let_def split_beta)

lemma fst_fold_t_step:
  "fst (fold (t_step shift) xs p) =
   fold (\<lambda>i f. f(i := (f i - f (i + shift)) / 2, i + shift := - ((f i - f (i + shift)) / 2))) xs (fst p)"
  by (induction xs arbitrary: p) (simp_all add: fst_t_step)

lemma t_fold_closed_form:
  fixes f :: "nat \<Rightarrow> 'a::real_normed_field"
  assumes "distinct xs" "set xs \<subseteq> {..<h}"
  shows "fold (\<lambda>i f. f(i := (f i - f (i + h)) / 2, i + h := - ((f i - f (i + h)) / 2))) xs f =
    (\<lambda>k. if k \<in> set xs then (f k - f (k + h)) / 2
         else if h \<le> k \<and> k - h \<in> set xs then - ((f (k - h) - f k) / 2) else f k)"
proof (rule ext)
  fix k
  let ?step = "\<lambda>i (f :: nat \<Rightarrow> 'a). f(i := (f i - f (i + h)) / 2, i + h := - ((f i - f (i + h)) / 2))"
  let ?K = "\<lambda>i. {i, i + h}"
  have frame: "\<And>x g k. x \<in> set xs \<Longrightarrow> k \<notin> ?K x \<Longrightarrow> ?step x g k = g k"
    by simp
  have loc: "\<And>x g g' k. x \<in> set xs \<Longrightarrow> \<forall>k' \<in> ?K x. g k' = g' k' \<Longrightarrow> k \<in> ?K x \<Longrightarrow>
      ?step x g k = ?step x g' k"
    by auto
  have disj: "\<And>x y. x \<in> set xs \<Longrightarrow> y \<in> set xs \<Longrightarrow> x \<noteq> y \<Longrightarrow> ?K x \<inter> ?K y = {}"
    using assms(2) by auto
  have pos: "0 < h" if "x \<in> set xs" for x
    using assms(2) that by auto
  consider (lo) "k \<in> set xs" | (hi) "k \<notin> set xs" "h \<le> k" "k - h \<in> set xs"
    | (out) "k \<notin> set xs" "\<not> (h \<le> k \<and> k - h \<in> set xs)"
    by blast
  then show "fold ?step xs f k =
    (if k \<in> set xs then (f k - f (k + h)) / 2
     else if h \<le> k \<and> k - h \<in> set xs then - ((f (k - h) - f k) / 2) else f k)"
  proof cases
    case lo
    have "fold ?step xs f k = ?step k f k"
      by (rule fold_local_at [where K = ?K and step = ?step, OF frame loc disj assms(1) lo]) simp_all
    with lo pos [of k] show ?thesis by simp
  next
    case hi
    have "fold ?step xs f k = ?step (k - h) f k"
      by (rule fold_local_at [where K = ?K and step = ?step, OF frame loc disj assms(1) hi(3)])
         (use hi in simp_all)
    with hi show ?thesis by simp
  next
    case out
    have "fold ?step xs f k = f k"
    proof (rule fold_local_other [where K = ?K])
      fix x g assume "x \<in> set xs" "k \<notin> {x, x + h}"
      then show "?step x g k = g k" by simp
    next
      fix x assume "x \<in> set xs"
      with out show "k \<notin> {x, x + h}" by auto
    qed
    with out show ?thesis by auto
  qed
qed

lemma execute_t_closed_form:
  "fst (execute_t Nt f) =
   (\<lambda>k. if k < Nt div 2 then (f k - f (k + Nt div 2)) / 2
        else if k < 2 * (Nt div 2) then - ((f (k - Nt div 2) - f k) / 2) else f k)"
proof -
  have "fst (execute_t Nt f) =
      (\<lambda>k. if k \<in> set [0..<Nt div 2] then (f k - f (k + Nt div 2)) / 2
           else if Nt div 2 \<le> k \<and> k - Nt div 2 \<in> set [0..<Nt div 2]
             then - ((f (k - Nt div 2) - f k) / 2) else f k)"
    unfolding execute_t_def Let_def fst_fold_t_step fst_conv
    by (rule t_fold_closed_form) auto
  also have "\<dots> = (\<lambda>k. if k < Nt div 2 then (f k - f (k + Nt div 2)) / 2
      else if k < 2 * (Nt div 2) then - ((f (k - Nt div 2) - f k) / 2) else f k)"
    by (rule ext) auto
  finally show ?thesis .
qed

lemma snd_fold_t_step:
  assumes "distinct xs" "set xs \<subseteq> {..<h}"
  shows "snd (fold (t_step h) xs (f, m)) = fold (\<lambda>i m. max m (norm ((f i + f (i + h)) / 2))) xs m"
  using assms
proof (induction xs rule: rev_induct)
  case Nil
  then show ?case by simp
next
  case (snoc x xs)
  let ?g = "fst (fold (t_step h) xs (f, m))"
  have d: "distinct xs" "set xs \<subseteq> {..<h}" "x \<notin> set xs" "x < h"
    using snoc.prems by auto
  have g: "?g = (\<lambda>k. if k \<in> set xs then (f k - f (k + h)) / 2
         else if h \<le> k \<and> k - h \<in> set xs then - ((f (k - h) - f k) / 2) else f k)"
    unfolding fst_fold_t_step fst_conv by (rule t_fold_closed_form) (use d in auto)
  have "?g x = f x" "?g (x + h) = f (x + h)"
    using d by (auto simp: g)
  then show ?case
    using snoc.IH d by (simp add: snd_t_step)
qed


lemma execute_t_residual:
  "snd (execute_t Nt f) =
   fold (\<lambda>i m. max m (norm ((f i + f (i + Nt div 2)) / 2))) [0..<Nt div 2] 0"
  unfolding execute_t_def Let_def by (rule snd_fold_t_step) auto



lemma fold_max_Max:
  "fold (\<lambda>i m. max m (v i)) xs (m0::real) = Max (insert m0 (v ` set xs))"
proof (induction xs arbitrary: m0)
  case Nil
  then show ?case by simp
next
  case (Cons x xs)
  have "Max (insert (max m0 (v x)) (v ` set xs)) = Max (insert m0 (insert (v x) (v ` set xs)))"
    by (cases "set xs = {}") (simp_all add: max.assoc)
  with Cons show ?case by simp
qed

lemma upt_2: "[0..<2] = [0, 1]"
  by (simp add: upt_rec)

lemma upt_4: "[0..<4] = [0, 1, 2, 3]"
  by (simp add: upt_rec)

text \<open>
  Claim C3, as stated, fails in its last part: for \<open>Nt = 4\<close> and \<open>f = [1, 2, 3, 4]\<close> the
  output is \<open>[-1, -1, 1, 1]\<close>, but the reported residual is 3, the larger of
  \<open>|(1 + 3) / 2|\<close> and \<open>|(2 + 4) / 2|\<close>, and not 2.
\<close>

theorem time_symmetrization_counterexample:
  "values_of 4 (fst (execute_t 4 (func_of_list [1, 2, 3, 4::real]))) = [- 1, - 1, 1, 1] \<and>
   snd (execute_t 4 (func_of_list [1, 2, 3, 4::real])) = 3 \<and>
   snd (execute_t 4 (func_of_list [1, 2, 3, 4::real])) \<noteq> 2"
  by (simp add: execute_t_closed_form execute_t_residual values_of_def func_of_list_def
      upt_4 upt_2)

text \<open>
  Claim C3, amended.  For a function over the imaginary-time domain of size \<open>Nt\<close> (even or
  not) and every \<open>i < Nt div 2\<close>, the pass replaces \<open>f(i)\<close> by
  \<open>(f_old(i) - f_old(i + Nt div 2)) / 2\<close> and \<open>f(i + Nt div 2)\<close> by the negation of that
  value, so that afterwards \<open>f(i) + f(i + Nt div 2) = 0\<close>.  The reported residual is the
  maximum over all \<open>i < Nt div 2\<close> of \<open>|(f_old(i) + f_old(i + Nt div 2)) / 2|\<close> (and 0 for
  an empty range).  For \<open>Nt = 4\<close> and \<open>f = [1, 2, 3, 4]\<close> the output is \<open>[-1, -1, 1, 1]\<close>
  and the reported residual is 3.
\<close>

theorem time_symmetrization:
  "(i < Nt div 2 \<longrightarrow>
      fst (execute_t Nt f) i = (f i - f (i + Nt div 2)) / 2 \<and>
      fst (execute_t Nt f) (i + Nt div 2) = - ((f i - f (i + Nt div 2)) / 2) \<and>
      fst (execute_t Nt f) i + fst (execute_t Nt f) (i + Nt div 2) = 0) \<and>
   snd (execute_t Nt f) =
      Max (insert 0 ((\<lambda>i. norm ((f i + f (i + Nt div 2)) / 2)) ` {..<Nt div 2})) \<and>
   values_of 4 (fst (execute_t 4 (func_of_list [1, 2, 3, 4::real]))) = [- 1, - 1, 1, 1] \<and>
   snd (execute_t 4 (func_of_list [1, 2, 3, 4::real])) = 3"
proof (intro conjI impI)
  assume i: "i < Nt div 2"
  then show a: "fst (execute_t Nt f) i = (f i - f (i + Nt div 2)) / 2"
    by (simp add: execute_t_closed_form)
  from i show b: "fst (execute_t Nt f) (i + Nt div 2) = - ((f i - f (i + Nt div 2)) / 2)"
    by (simp add: execute_t_closed_form)
  from a b show "fst (execute_t Nt f) i + fst (execute_t Nt f) (i + Nt div 2) = 0"
    by simp
next
  show "snd (execute_t Nt f) =
      Max (insert 0 ((\<lambda>i. norm ((f i + f (i + Nt div 2)) / 2)) ` {..<Nt div 2}))"
    by (simp add: execute_t_residual fold_max_Max lessThan_atLeast0)
next
  show "values_of 4 (fst (execute_t 4 (func_of_list [1, 2, 3, 4::real]))) = [- 1, - 1, 1, 1]"
    by (simp add: execute_t_closed_form values_of_def func_of_list_def upt_4)
  show "snd (execute_t 4 (func_of_list [1, 2, 3, 4::real])) = 3"
    by (simp add: execute_t_residual func_of_list_def upt_2)
qed

theorem time_symmetrization_witness:
  "(1::nat) < 4 div 2 \<and>
   fst (execute_t 4 (func_of_list [1, 2, 3, 4::real])) 1 = - 1 \<and>
   fst (execute_t 4 (func_of_list [1, 2, 3, 4::real])) 3 = 1 \<and>
   fst (execute_t 4 (func_of_list [1, 2, 3, 4::real])) 1 +
     fst (execute_t 4 (func_of_list [1, 2, 3, 4::real])) 3 = 0"
proof -
  let ?F = "func_of_list [1, 2, 3, 4::real]"
  have h: "(1::nat) < 4 div 2" by simp
  have e: "(1::nat) + 4 div 2 = 3" by simp
  have v: "?F 1 = 2" "?F 3 = 4" by (simp_all add: func_of_list_def)
  from time_symmetrization [of 1 4 ?F] h
  have "fst (execute_t 4 ?F) 1 = (?F 1 - ?F (1 + 4 div 2)) / 2 \<and>
        fst (execute_t 4 ?F) (1 + 4 div 2) = - ((?F 1 - ?F (1 + 4 div 2)) / 2) \<and>
        fst (execute_t 4 ?F) 1 + fst (execute_t 4 ?F) (1 + 4 div 2) = 0"
    by blast
  then have "fst (execute_t 4 ?F) 1 = - 1 \<and> fst (execute_t 4 ?F) 3 = 1 \<and>
        fst (execute_t 4 ?F) 1 + fst (execute_t 4 ?F) 3 = 0"
    unfolding e v by simp
  with h show ?thesis by blast
qed

subsection \<open>Matsubara frequencies\<close>

lemma fst_w_step:
  "fst (w_step Nw i p) =
   (fst p)(i := (fst p i + cnj (fst p (Nw - 1 - i))) / 2,
           Nw - 1 - i := cnj ((fst p i + cnj (fst p (Nw - 1 - i))) / 2))"
  by (simp add: w_step_def Let_def split_beta)

lemma snd_w_step:
  "snd (w_step Nw i p) = max (snd p) (norm ((fst p i - cnj (fst p (Nw - 1 - i))) / 2))"
  by (simp add: w_step_def Let_def split_beta)

lemma fst_fold_w_step:
  "fst (fold (w_step Nw) xs p) =
   fold (\<lambda>i f. f(i := (f i + cnj (f (Nw - 1 - i))) / 2,
                  Nw - 1 - i := cnj ((f i + cnj (f (Nw - 1 - i))) / 2))) xs (fst p)"
  by (induction xs arbitrary: p) (simp_all add: fst_w_step)

lemma w_fold_closed_form:
  fixes f :: "nat \<Rightarrow> complex"
  assumes "distinct xs" "set xs \<subseteq> {..<N div 2}"
  shows "fold (\<lambda>i f. f(i := (f i + cnj (f (N - 1 - i))) / 2,
                       N - 1 - i := cnj ((f i + cnj (f (N - 1 - i))) / 2))) xs f =
    (\<lambda>k. if k \<in> set xs then (f k + cnj (f (N - 1 - k))) / 2
         else if k < N \<and> N - 1 - k \<in> set xs then cnj ((f (N - 1 - k) + cnj (f k)) / 2) else f k)"
proof (rule ext)
  fix k
  let ?step = "\<lambda>i (f :: nat \<Rightarrow> complex). f(i := (f i + cnj (f (N - 1 - i))) / 2,
                       N - 1 - i := cnj ((f i + cnj (f (N - 1 - i))) / 2))"
  let ?K = "\<lambda>i. {i, N - 1 - i}"
  have frame: "\<And>x g k. x \<in> set xs \<Longrightarrow> k \<notin> ?K x \<Longrightarrow> ?step x g k = g k"
    by simp
  have loc: "\<And>x g g' k. x \<in> set xs \<Longrightarrow> \<forall>k' \<in> ?K x. g k' = g' k' \<Longrightarrow> k \<in> ?K x \<Longrightarrow>
      ?step x g k = ?step x g' k"
    by auto
  have lt: "x < N - 1 - x" "x < N" if "x \<in> set xs" for x
    using assms(2) that by auto
  have half: "x < N div 2" if "x \<in> set xs" for x
    using assms(2) that by auto
  have disj: "?K x \<inter> ?K y = {}" if "x \<in> set xs" "y \<in> set xs" "x \<noteq> y" for x y
  proof -
    have "x < N div 2" "y < N div 2" using that half by simp_all
    then have "x \<noteq> N - 1 - y" "N - 1 - x \<noteq> y" "N - 1 - x \<noteq> N - 1 - y"
      using that(3) by linarith+
    with that(3) show ?thesis by simp
  qed
  consider (lo) "k \<in> set xs" | (hi) "k \<notin> set xs" "k < N" "N - 1 - k \<in> set xs"
    | (out) "k \<notin> set xs" "\<not> (k < N \<and> N - 1 - k \<in> set xs)"
    by blast
  then show "fold ?step xs f k =
    (if k \<in> set xs then (f k + cnj (f (N - 1 - k))) / 2
     else if k < N \<and> N - 1 - k \<in> set xs then cnj ((f (N - 1 - k) + cnj (f k)) / 2) else f k)"
  proof cases
    case lo
    have "fold ?step xs f k = ?step k f k"
      by (rule fold_local_at [where K = ?K and step = ?step, OF frame loc disj assms(1) lo]) simp_all
    with lo lt [of k] show ?thesis by simp
  next
    case hi
    have k: "N - 1 - (N - 1 - k) = k" using hi by simp
    have "fold ?step xs f k = ?step (N - 1 - k) f k"
      by (rule fold_local_at [where K = ?K and step = ?step, OF frame loc disj assms(1) hi(3)])
         (use k in simp_all)
    with hi k show ?thesis by simp
  next
    case out
    have "fold ?step xs f k = f k"
    proof (rule fold_local_other [where K = ?K])
      fix x g assume "x \<in> set xs" "k \<notin> {x, N - 1 - x}"
      then show "?step x g k = g k" by simp
    next
      fix x assume x: "x \<in> set xs"
      show "k \<notin> {x, N - 1 - x}"
      proof
        assume "k \<in> {x, N - 1 - x}"
        with out(1) x have e: "k = N - 1 - x" by auto
        with lt [OF x] have "k < N" "N - 1 - k = x" by simp_all
        with out(2) x show False by simp
      qed
    qed
    with out show ?thesis by auto
  qed
qed

lemma execute_w_closed_form:
  "fst (execute_w Nw f) =
   (\<lambda>k. if k < Nw div 2 then (f k + cnj (f (Nw - 1 - k))) / 2
        else if k < Nw \<and> Nw - 1 - k < Nw div 2 then cnj ((f (Nw - 1 - k) + cnj (f k)) / 2)
        else f k)"
proof -
  have "fst (execute_w Nw f) =
      (\<lambda>k. if k \<in> set [0..<Nw div 2] then (f k + cnj (f (Nw - 1 - k))) / 2
         else if k < Nw \<and> Nw - 1 - k \<in> set [0..<Nw div 2]
           then cnj ((f (Nw - 1 - k) + cnj (f k)) / 2) else f k)"
    unfolding execute_w_def fst_fold_w_step fst_conv
    by (rule w_fold_closed_form) auto
  also have "\<dots> = (\<lambda>k. if k < Nw div 2 then (f k + cnj (f (Nw - 1 - k))) / 2
        else if k < Nw \<and> Nw - 1 - k < Nw div 2 then cnj ((f (Nw - 1 - k) + cnj (f k)) / 2)
        else f k)"
    by (rule ext) auto
  finally show ?thesis .
qed

lemma snd_fold_w_step:
  assumes "distinct xs" "set xs \<subseteq> {..<N div 2}"
  shows "snd (fold (w_step N) xs (f, m)) =
    fold (\<lambda>i m. max m (norm ((f i - cnj (f (N - 1 - i))) / 2))) xs m"
  using assms
proof (induction xs rule: rev_induct)
  case Nil
  then show ?case by simp
next
  case (snoc x xs)
  let ?g = "fst (fold (w_step N) xs (f, m))"
  have d: "distinct xs" "set xs \<subseteq> {..<N div 2}" "x \<notin> set xs" "x < N div 2"
    using snoc.prems by auto
  have g: "?g = (\<lambda>k. if k \<in> set xs then (f k + cnj (f (N - 1 - k))) / 2
         else if k < N \<and> N - 1 - k \<in> set xs then cnj ((f (N - 1 - k) + cnj (f k)) / 2) else f k)"
    unfolding fst_fold_w_step fst_conv by (rule w_fold_closed_form) (use d in auto)
  have "N - 1 - (N - 1 - x) = x" using d by simp
  then have "?g x = f x" "?g (N - 1 - x) = f (N - 1 - x)"
    using d by (auto simp: g)
  then show ?case
    using snoc.IH d by (simp add: snd_w_step)
qed

lemma execute_w_residual:
  "snd (execute_w Nw f) =
   Max (insert 0 ((\<lambda>i. norm ((f i - cnj (f (Nw - 1 - i))) / 2)) ` {..<Nw div 2}))"
proof -
  have "snd (execute_w Nw f) =
      fold (\<lambda>i m. max m (norm ((f i - cnj (f (Nw - 1 - i))) / 2))) [0..<Nw div 2] 0"
    unfolding execute_w_def by (rule snd_fold_w_step) auto
  then show ?thesis
    by (simp add: fold_max_Max lessThan_atLeast0)
qed

lemma execute_w_hermitian:
  assumes "even Nw" "i < Nw"
  shows "fst (execute_w Nw f) i = cnj (fst (execute_w Nw f) (Nw - 1 - i))"
proof -
  from assms obtain h where h: "Nw = 2 * h" by (auto elim: evenE)
  have "i < h \<or> (h \<le> i \<and> i < 2 * h)" using assms h by auto
  then show ?thesis
  proof
    assume i: "i < h"
    then have "\<not> 2 * h - 1 - i < h" "2 * h - 1 - i < 2 * h" "2 * h - 1 - (2 * h - 1 - i) = i"
      by auto
    then show ?thesis using i by (simp add: execute_w_closed_form h)
  next
    assume i: "h \<le> i \<and> i < 2 * h"
    then have "2 * h - 1 - i < h" "2 * h - 1 - (2 * h - 1 - i) = i" "\<not> i < h" by auto
    then show ?thesis using i by (simp add: execute_w_closed_form h)
  qed
qed



text \<open>
  Claim C4.  For a function over the Matsubara-frequency domain of size \<open>Nw\<close> and every
  \<open>i < Nw div 2\<close> with mirror index \<open>j = Nw - 1 - i\<close>, the pass replaces \<open>f(i)\<close> by
  \<open>(f_old(i) + conj(f_old(j))) / 2\<close> and \<open>f(j)\<close> by the conjugate of that value.  When \<open>Nw\<close>
  is even, afterwards \<open>f(i) = conj(f(Nw - 1 - i))\<close> for every index \<open>i\<close> of the domain.
\<close>

theorem frequency_symmetrization:
  "(i < Nw div 2 \<longrightarrow>
      fst (execute_w Nw f) i = (f i + cnj (f (Nw - 1 - i))) / 2 \<and>
      fst (execute_w Nw f) (Nw - 1 - i) = cnj ((f i + cnj (f (Nw - 1 - i))) / 2)) \<and>
   (even Nw \<and> i < Nw \<longrightarrow> fst (execute_w Nw f) i = cnj (fst (execute_w Nw f) (Nw - 1 - i)))"
proof (intro conjI impI)
  assume i: "i < Nw div 2"
  then show "fst (execute_w Nw f) i = (f i + cnj (f (Nw - 1 - i))) / 2"
    by (simp add: execute_w_closed_form)
  from i have "Nw - 1 - i < Nw" "\<not> Nw - 1 - i < Nw div 2" "Nw - 1 - (Nw - 1 - i) = i" by auto
  then show "fst (execute_w Nw f) (Nw - 1 - i) = cnj ((f i + cnj (f (Nw - 1 - i))) / 2)"
    using i by (simp add: execute_w_closed_form)
next
  assume "even Nw \<and> i < Nw"
  then show "fst (execute_w Nw f) i = cnj (fst (execute_w Nw f) (Nw - 1 - i))"
    by (intro execute_w_hermitian) simp_all
qed

text \<open>
  The witness is the second Matsubara scenario of the specification: \<open>Nw = 4\<close> and
  \<open>f = [1, 0, 0, 0]\<close> give \<open>[1/2, 0, 0, 1/2]\<close>.
\<close>

theorem frequency_symmetrization_witness:
  "(0::nat) < 4 div 2 \<and> even (4::nat) \<and> (0::nat) < 4 \<and>
   fst (execute_w 4 (func_of_list [1, 0, 0, 0])) 0 = 1 / 2 \<and>
   fst (execute_w 4 (func_of_list [1, 0, 0, 0])) 3 = 1 / 2 \<and>
   fst (execute_w 4 (func_of_list [1, 0, 0, 0])) 0 = cnj (fst (execute_w 4 (func_of_list [1, 0, 0, 0])) 3)"
proof -
  let ?F = "func_of_list [1, 0, 0, 0::complex]"
  have h: "(0::nat) < 4 div 2" "even (4::nat)" "(0::nat) < 4" by simp_all
  have e: "(4::nat) - 1 - 0 = 3" by simp
  have v: "?F 0 = 1" "?F 3 = 0" by (simp_all add: func_of_list_def)
  from frequency_symmetrization [of 0 4 ?F] h
  have a: "fst (execute_w 4 ?F) 0 = (?F 0 + cnj (?F (4 - 1 - 0))) / 2"
    and b: "fst (execute_w 4 ?F) (4 - 1 - 0) = cnj ((?F 0 + cnj (?F (4 - 1 - 0))) / 2)"
    and c: "fst (execute_w 4 ?F) 0 = cnj (fst (execute_w 4 ?F) (4 - 1 - 0))"
    by blast+
  have "fst (execute_w 4 ?F) 0 = 1 / 2"
    using a unfolding e v by simp
  moreover have "fst (execute_w 4 ?F) 3 = 1 / 2"
    using b unfolding e v by simp
  moreover have "fst (execute_w 4 ?F) 0 = cnj (fst (execute_w 4 ?F) 3)"
    using c unfolding e .
  ultimately show ?thesis using h by blast
qed

text \<open>The two Matsubara scenarios of the specification.\<close>

lemma lessThan_2: "{..<2::nat} = {0, 1}"
  by auto

lemma matsubara_scenarios:
  "values_of 4 (fst (execute_w 4 (func_of_list [Complex 1 1, 2, 2, Complex 1 (- 1)]))) =
     [Complex 1 1, 2, 2, Complex 1 (- 1)]"
  "snd (execute_w 4 (func_of_list [Complex 1 1, 2, 2, Complex 1 (- 1)])) = 0"
  "values_of 4 (fst (execute_w 4 (func_of_list [1, 0, 0, 0]))) = [1 / 2, 0, 0, 1 / 2]"
proof -
  have d: "(4::nat) div 2 = 2" by simp
  show "values_of 4 (fst (execute_w 4 (func_of_list [Complex 1 1, 2, 2, Complex 1 (- 1)]))) =
     [Complex 1 1, 2, 2, Complex 1 (- 1)]"
    by (simp add: execute_w_closed_form values_of_def func_of_list_def upt_4 complex_eq_iff)
  show "snd (execute_w 4 (func_of_list [Complex 1 1, 2, 2, Complex 1 (- 1)])) = 0"
    unfolding execute_w_residual d lessThan_2
    by (simp add: func_of_list_def complex_eq_iff)
  show "values_of 4 (fst (execute_w 4 (func_of_list [1, 0, 0, 0]))) = [1 / 2, 0, 0, 1 / 2]"
    by (simp add: execute_w_closed_form values_of_def func_of_list_def upt_4)
qed

subsection \<open>Band pairs over time and frequency\<close>






subsection \<open>Electron spin\<close>




subsection \<open>Cluster domains\<close>








lemma and_then_Returned: "and_then (Returned g) pass = pass g"
  by (simp add: and_then_def)












text \<open>
  Claim C8 for the symmetry group: with no symmetry operation (\<open>n_sym = 0\<close>) the
  real-space passes and the scalar momentum-space pass throw
  \<open>std::logic_error("execute")\<close>.  The band-pair momentum-space pass has no such test: it
  divides by \<open>double(0)\<close> and returns.
\<close>

theorem empty_symmetry_group:
  "execute_r tab n_r 0 f = Threw (logic_error ''execute'') \<and>
   execute_bbr tab nb n_r 0 g = Threw (logic_error ''execute'') \<and>
   execute_k tab n_k 0 f = Threw (logic_error ''execute'') \<and>
   execute_bbk tab nb n_k 0 g = ReturnedNaN"
  by (simp add: execute_r_def execute_bbr_def execute_k_def execute_bbk_def)

end
